theory Spec2Isabelle
  imports Main
begin

section \<open>Python values used by the date code\<close>

text \<open>
  A Python \<open>str\<close> is a sequence of Unicode code points; it is modelled as a list of
  code-point numbers, so that the Persian digits U+06F0 .. U+06F9 are single elements.
  Python integers are unbounded and \<open>//\<close>, \<open>%\<close> round towards minus infinity, as
  \<open>div\<close> and \<open>mod\<close> on \<open>int\<close> do.
\<close>

type_synonym pystr = "nat list"

datatype error = ValueError | OverflowError | IndexError

definition ascii :: "string \<Rightarrow> pystr" where
  "ascii s = map of_char s"

text \<open>\<open>str.isspace\<close> of a single code point, which is what \<open>str.strip()\<close> removes.\<close>

definition py_isspace :: "nat \<Rightarrow> bool" where
  "py_isspace c \<longleftrightarrow>
     (9 \<le> c \<and> c \<le> 13) \<or> (28 \<le> c \<and> c \<le> 32) \<or> c = 133 \<or> c = 160 \<or> c = 5760
     \<or> (8192 \<le> c \<and> c \<le> 8202) \<or> c = 8232 \<or> c = 8233 \<or> c = 8239 \<or> c = 8287
     \<or> c = 12288"

definition py_strip :: "pystr \<Rightarrow> pystr" where
  "py_strip s = rev (dropWhile py_isspace (rev (dropWhile py_isspace s)))"

text \<open>\<open>s.replace(a, b)\<close> for one-character \<open>a\<close> and \<open>b\<close>.\<close>

definition py_replace :: "nat \<Rightarrow> nat \<Rightarrow> pystr \<Rightarrow> pystr" where
  "py_replace a b s = map (\<lambda>c. if c = a then b else c) s"

text \<open>\<open>s.split(sep)\<close> for a one-character separator: empty pieces are kept.\<close>

fun py_split :: "nat \<Rightarrow> pystr \<Rightarrow> pystr list" where
  "py_split sep [] = [[]]"
| "py_split sep (c # cs) =
     (if c = sep then [] # py_split sep cs
      else (case py_split sep cs of
              [] \<Rightarrow> [[c]]
            | p # ps \<Rightarrow> (c # p) # ps))"

text \<open>
  Subscription \<open>xs[i]\<close> of a list of length \<open>n\<close>: the indices \<open>0 .. n - 1\<close> and, read
  from the end, \<open>- n .. - 1\<close> are in range; any other raises \<open>IndexError\<close>.
\<close>

definition py_index :: "'a list \<Rightarrow> int \<Rightarrow> error + 'a" where
  "py_index xs i =
     (if 0 \<le> i \<and> i < int (length xs) then Inr (xs ! nat i)
      else if - int (length xs) \<le> i \<and> i < 0 then Inr (xs ! nat (int (length xs) + i))
      else Inl IndexError)"

text \<open>
  The built-in \<open>int(s)\<close> is a parameter \<open>int_of\<close> of the parser below (\<open>None\<close> where
  \<open>int\<close> raises \<open>ValueError\<close>). \<open>py_int_ascii\<close> is \<open>int\<close> on ASCII input: surrounding
  white space, an optional sign, decimal digits with single underscores between them.
  It is used only where a concrete ASCII input is evaluated: on other input it differs
  from \<open>int\<close>, which also accepts the decimal digits of other scripts and refuses a
  numeral of more than 4300 digits.
\<close>

fun digits_to_int :: "int \<Rightarrow> pystr \<Rightarrow> int option" where
  "digits_to_int acc [] = Some acc"
| "digits_to_int acc (c # cs) =
     (if c = 95 then (case cs of [] \<Rightarrow> None
                      | d # _ \<Rightarrow> if d = 95 then None else digits_to_int acc cs)
      else if 48 \<le> c \<and> c \<le> 57 then digits_to_int (10 * acc + (int c - 48)) cs
      else None)"

definition py_int_ascii :: "pystr \<Rightarrow> int option" where
  "py_int_ascii s =
     (let t = py_strip s;
          (sign, body) = (case t of
                            [] \<Rightarrow> (1, t)
                          | c # r \<Rightarrow> if c = 43 then (1, r) else if c = 45 then (- 1, r)
                                     else (1, t))
      in case body of
           [] \<Rightarrow> None
         | c # _ \<Rightarrow> if c = 95 then None
                    else map_option (\<lambda>v. sign * v) (digits_to_int 0 body))"

text \<open>
  \<open>datetime.date(year, month, day)\<close>: \<open>OverflowError\<close> for an argument that is no C
  \<open>int\<close>, \<open>ValueError\<close> for a year outside 1..9999, a month outside 1..12 or a day
  outside the month. A date is the triple of its fields.
\<close>

type_synonym date = "int \<times> int \<times> int"

definition is_leap :: "int \<Rightarrow> bool" where
  "is_leap y \<longleftrightarrow> (y mod 4 = 0 \<and> y mod 100 \<noteq> 0) \<or> y mod 400 = 0"

definition days_in_month :: "int \<Rightarrow> int \<Rightarrow> int" where
  "days_in_month y m =
     (if m = 2 then (if is_leap y then 29 else 28)
      else if m = 4 \<or> m = 6 \<or> m = 9 \<or> m = 11 then 30 else 31)"

definition c_int :: "int \<Rightarrow> bool" where
  "c_int x \<longleftrightarrow> - 2147483648 \<le> x \<and> x \<le> 2147483647"

definition py_date :: "int \<Rightarrow> int \<Rightarrow> int \<Rightarrow> error + date" where
  "py_date y m d =
     (if \<not> (c_int y \<and> c_int m \<and> c_int d) then Inl OverflowError
      else if y < 1 \<or> 9999 < y then Inl ValueError
      else if m < 1 \<or> 12 < m then Inl ValueError
      else if d < 1 \<or> days_in_month y m < d then Inl ValueError
      else Inr (y, m, d))"


section \<open>forms.py: calendar conversion and date parsing\<close>

definition persian_to_ascii :: "pystr \<Rightarrow> pystr" where
  "persian_to_ascii v =
     (let mapping = [(1776, 48), (1777, 49), (1778, 50), (1779, 51), (1780, 52),
                     (1781, 53), (1782, 54), (1783, 55), (1784, 56), (1785, 57)]
      in map (\<lambda>ch. case map_of mapping ch of Some a \<Rightarrow> a | None \<Rightarrow> ch) v)"

text \<open>The loop \<open>while gm <= 12 and gd > sal_a[gm]\<close> of \<open>_jalali_to_gregorian\<close>.\<close>

function month_loop :: "int list \<Rightarrow> int \<Rightarrow> int \<Rightarrow> int \<times> int" where
  "month_loop sal_a gm gd =
     (if gm \<le> 12 \<and> gd > sal_a ! nat gm
      then month_loop sal_a (gm + 1) (gd - sal_a ! nat gm)
      else (gm, gd))"
  by pat_completeness auto
termination
  by (relation "measure (\<lambda>(sal_a, gm, gd). nat (13 - gm))") auto

declare month_loop.simps [simp del]

text \<open>
  \<open>_jalali_to_gregorian\<close> in its three parts. \<open>jalali_day_number\<close> is the value of
  \<open>days\<close> after the first \<open>if\<close>: the days from 1 January of the Gregorian year 0 to
  the Jalali date. \<open>gregorian_year_day\<close> is what the lines from
  \<open>gy = 400 * (days // 146097)\<close> to the last \<open>days = (days - 1) % 365\<close> make of it:
  the year \<open>gy\<close> and the day of the year \<open>days\<close>, counted from 0.
  \<open>gregorian_of_days\<close> goes on from there, to the month and the day.
\<close>

definition jalali_day_number :: "int \<Rightarrow> int \<Rightarrow> int \<Rightarrow> int" where
  "jalali_day_number jy0 jm jd =
     (let jy = jy0 + 1595;
          days = - 355668 + (365 * jy) + (jy div 33) * 8 + ((jy mod 33) + 3) div 4 + jd
      in if jm < 7 then days + (jm - 1) * 31 else days + ((jm - 7) * 30) + 186)"

definition gregorian_year_day :: "int \<Rightarrow> int \<times> int" where
  "gregorian_year_day days0 =
     (let gy = 400 * (days0 div 146097);
          days = days0 mod 146097;
          (gy, days) =
            (if days > 36524
             then (let gy = gy + 100 * ((days - 1) div 36524);
                       days = (days - 1) mod 36524
                   in (gy, if days \<ge> 365 then days + 1 else days))
             else (gy, days));
          gy = gy + 4 * (days div 1461);
          days = days mod 1461
      in if days > 365
         then (gy + (days - 1) div 365, (days - 1) mod 365)
         else (gy, days))"

definition gregorian_of_days :: "int \<Rightarrow> date" where
  "gregorian_of_days days0 =
     (case gregorian_year_day days0 of
        (gy, days) \<Rightarrow>
          (let gd = days + 1;
               sal_a = [0, 31,
                        if (gy mod 4 = 0 \<and> gy mod 100 \<noteq> 0) \<or> gy mod 400 = 0 then 29 else 28,
                        31, 30, 31, 30, 31, 31, 30, 31, 30, 31]
           in case month_loop sal_a 1 gd of (gm, gd) \<Rightarrow> (gy, gm, gd)))"

definition jalali_to_gregorian :: "int \<Rightarrow> int \<Rightarrow> int \<Rightarrow> date" where
  "jalali_to_gregorian jy jm jd = gregorian_of_days (jalali_day_number jy jm jd)"

definition g_d_m :: "int list" where
  "g_d_m = [0, 31, 59, 90, 120, 151, 181, 212, 243, 273, 304, 334]"

text \<open>
  Both Gregorian-to-Jalali converters end with the same lines, from
  \<open>jy += 33 * (days // 12053)\<close> to the month and the day; \<open>jalali_of_days\<close> is that
  common tail, started with the value \<open>jy\<close> has before it.
\<close>

definition jalali_of_days :: "int \<Rightarrow> int \<Rightarrow> date" where
  "jalali_of_days jy0 days0 =
     (let jy = jy0 + 33 * (days0 div 12053);
          days = days0 mod 12053;
          jy = jy + 4 * (days div 1461);
          days = days mod 1461;
          (jy, days) =
            (if days > 365
             then (jy + (days - 1) div 365, (days - 1) mod 365)
             else (jy, days));
          jm = (if days < 186 then 1 + (days div 31) else 7 + ((days - 186) div 30));
          jd = (if days < 186 then 1 + (days mod 31) else 1 + ((days - 186) mod 30))
      in (jy, jm, jd))"

definition gregorian_to_jalali :: "int \<Rightarrow> int \<Rightarrow> int \<Rightarrow> error + date" where
  "gregorian_to_jalali gy gm gd =
     (let gy2 = (if gm > 2 then gy + 1 else gy)
      in case py_index g_d_m (gm - 1) of
           Inl e \<Rightarrow> Inl e
         | Inr off \<Rightarrow>
             (let days = 355666 + (365 * gy) + ((gy2 + 3) div 4) - ((gy2 + 99) div 100)
                         + ((gy2 + 399) div 400) + gd + off
              in Inr (jalali_of_days (- 1595) days)))"

text \<open>
  \<open>_parse_birth_date\<close>. \<open>date_parts\<close> is the list \<open>parts\<close> of the source; the result is
  \<open>Inr None\<close> where the source returns \<open>None\<close>.
\<close>

definition date_parts :: "pystr \<Rightarrow> pystr list" where
  "date_parts v =
     (let raw = py_strip (persian_to_ascii v);
          raw = py_replace 46 47 (py_replace 45 47 raw)
      in filter (\<lambda>p. p \<noteq> []) (py_split 47 raw))"

definition parse_birth_date :: "(pystr \<Rightarrow> int option) \<Rightarrow> pystr \<Rightarrow> error + date option" where
  "parse_birth_date int_of v =
     (let raw = py_strip (persian_to_ascii v)
      in if raw = [] then Inr None
         else
           (let raw = py_replace 46 47 (py_replace 45 47 raw);
                parts = filter (\<lambda>p. p \<noteq> []) (py_split 47 raw)
            in if length parts \<noteq> 3 then Inl ValueError
               else
                 (case map int_of parts of
                    [Some year, Some month, Some day] \<Rightarrow>
                      if year \<ge> 1700 then map_sum id Some (py_date year month day)
                      else (case jalali_to_gregorian year month day of
                              (gy, gm, gd) \<Rightarrow> map_sum id Some (py_date gy gm gd))
                  | _ \<Rightarrow> Inl ValueError)))"


section \<open>views.py: the second Gregorian-to-Jalali converter\<close>

definition gregorian_to_jalali_views :: "int \<Rightarrow> int \<Rightarrow> int \<Rightarrow> error + date" where
  "gregorian_to_jalali_views gy0 gm gd =
     (let (jy, gy) = (if gy0 > 1600 then (979, gy0 - 1600) else (0, gy0 - 621));
          gy2 = (if gm > 2 then gy + 1 else gy)
      in case py_index g_d_m (gm - 1) of
           Inl e \<Rightarrow> Inl e
         | Inr off \<Rightarrow>
             (let days = 365 * gy + (gy2 + 3) div 4 - (gy2 + 99) div 100
                         + (gy2 + 399) div 400 - 80 + gd + off
              in Inr (jalali_of_days jy days)))"


section \<open>views.py: the data the progression code reads and writes\<close>

text \<open>
  The model classes are declared in \<open>models.py\<close>; the records below hold the fields
  that \<open>views.py\<close> reads and writes. A \<open>StudyLevel\<close> row is named by its \<open>code\<close>, a
  \<open>Semester\<close> and a \<open>CoursePeriod\<close> row by its \<open>number\<close>: these are the keys that
  \<open>get_or_create\<close> looks rows up by. A foreign key that may be null is an \<open>option\<close>, a
  many-to-many relation the list of the related rows. The \<open>school_class\<close> of a student
  is the related row's fields, read and never written by the code below.
\<close>

record school_class =
  class_level :: "string option"
  class_semester :: "int option"
  class_period :: "int option"

record student =
  student_id :: nat
  level :: "string option"
  school_class :: "school_class option"
  semesters :: "int list"
  periods :: "int list"
  is_graduated :: bool

record subject =
  subject_id :: nat
  subject_level :: "string option"
  semester :: "int option"
  period :: "int option"

record student_score =
  score_student :: nat
  score_subject :: nat
  score :: "int option"

record db =
  study_levels :: "string list"
  semester_table :: "int list"
  period_table :: "int list"
  subject_table :: "subject list"
  score_table :: "student_score list"

text \<open>
  The three messages \<open>_auto_promote_student\<close> returns: "graduated", "promoted to
  semester n" and "promoted to period n".
\<close>

datatype message = Graduated | PromotedSemester int | PromotedPeriod int

definition get_or_create :: "'a \<Rightarrow> 'a list \<Rightarrow> 'a list" where
  "get_or_create x xs = (if x \<in> set xs then xs else xs @ [x])"

text \<open>
  \<open>_ensure_reference_data\<close> creates the rows that are missing and returns \<open>level_map\<close>,
  the dictionary from each of the three codes to its row.
\<close>

definition level_map :: "(string \<times> string) list" where
  "level_map = [(''aali'', ''aali''), (''moteseta'', ''moteseta''), (''ebtedai'', ''ebtedai'')]"

definition ensure_reference_data :: "db \<Rightarrow> db" where
  "ensure_reference_data d =
     d\<lparr>study_levels := fold get_or_create [''aali'', ''moteseta'', ''ebtedai''] (study_levels d),
       semester_table := fold get_or_create [1, 2, 3, 4] (semester_table d),
       period_table := fold get_or_create [1, 2, 3, 4, 5, 6] (period_table d)\<rparr>"

text \<open>\<open>qs.order_by('-number').first() if qs.exists() else None\<close>\<close>

definition latest :: "int list \<Rightarrow> int option" where
  "latest ns = (case ns of [] \<Rightarrow> None | n # ns' \<Rightarrow> Some (fold max ns' n))"

definition latest_semester_of :: "student \<Rightarrow> int option" where
  "latest_semester_of student =
     (case latest (semesters student) of
        Some n \<Rightarrow> Some n
      | None \<Rightarrow> (case school_class student of
                   Some c \<Rightarrow> class_semester c
                 | None \<Rightarrow> None))"

definition latest_period_of :: "student \<Rightarrow> int option" where
  "latest_period_of student =
     (case latest (periods student) of
        Some n \<Rightarrow> Some n
      | None \<Rightarrow> (case school_class student of
                   Some c \<Rightarrow> class_period c
                 | None \<Rightarrow> None))"

text \<open>\<open>student.level or (student.school_class.level if student.school_class else None)\<close>\<close>

definition level_obj_of :: "student \<Rightarrow> string option" where
  "level_obj_of student =
     (case level student of
        Some l \<Rightarrow> Some l
      | None \<Rightarrow> (case school_class student of
                   Some c \<Rightarrow> class_level c
                 | None \<Rightarrow> None))"

text \<open>
  \<open>level_obj\<close> of \<open>_auto_promote_student\<close> after its block \<open>if not level_obj: ...\<close>:
  a learner with no level of its own or of its class is given one from its markers.
\<close>

definition effective_level :: "student \<Rightarrow> string option" where
  "effective_level student =
     (case level_obj_of student of
        Some l \<Rightarrow> Some l
      | None \<Rightarrow>
          if latest_semester_of student \<noteq> None \<and> latest_period_of student = None
          then map_of level_map ''aali''
          else if latest_period_of student \<noteq> None
          then (case map_of level_map ''moteseta'' of
                  Some l \<Rightarrow> Some l
                | None \<Rightarrow> map_of level_map ''ebtedai'')
          else None)"

text \<open>
  The two subject queries: the subjects of a semester number or of a period, of the
  given level or of no level.
\<close>

definition semester_subjects :: "db \<Rightarrow> string option \<Rightarrow> int \<Rightarrow> subject list" where
  "semester_subjects d level_obj n =
     (let subjects = filter (\<lambda>s. semester s = Some n) (subject_table d)
      in filter (\<lambda>s. subject_level s = level_obj \<or> subject_level s = None) subjects)"

definition period_subjects :: "db \<Rightarrow> string option \<Rightarrow> int \<Rightarrow> subject list" where
  "period_subjects d level_obj n =
     (let subjects = filter (\<lambda>s. period s = Some n) (subject_table d)
      in filter (\<lambda>s. subject_level s = level_obj \<or> subject_level s = None) subjects)"

text \<open>
  The checks from \<open>subjects = subjects.order_by('id')\<close> to the last \<open>return None\<close>
  before the promotion: \<open>False\<close> where the source returns \<open>None\<close>. The same lines are
  in \<open>_can_graduate_ebtedai\<close>.
\<close>

definition passed_all :: "db \<Rightarrow> student \<Rightarrow> subject list \<Rightarrow> bool" where
  "passed_all d student subjects0 =
     (let subjects = sort_key subject_id subjects0
      in if subjects = [] then False
         else
           (let scores_qs = filter (\<lambda>r. score_student r = student_id student \<and>
                                         score_subject r \<in> set (map subject_id subjects))
                              (score_table d)
            in if length scores_qs < length subjects then False
               else if \<exists>r \<in> set scores_qs. score r = None then False
               else if \<exists>r \<in> set scores_qs. (case score r of Some v \<Rightarrow> v < 50 | None \<Rightarrow> False)
               then False
               else True))"

text \<open>
  \<open>_auto_promote_student\<close>. The result is the returned message, the database and the
  student as saved. The source raises nowhere, so every result is an \<open>Inr\<close>. Its two
  blocks \<open>if level_code == 'aali'\<close> (the subject query, then the promotion) are one
  branch here, and so are the two for the other levels.
\<close>

definition auto_promote_student :: "db \<Rightarrow> student \<Rightarrow> error + (message option \<times> db \<times> student)" where
  "auto_promote_student db0 student =
     (if is_graduated student then Inr (None, db0, student)
      else
        (let d = ensure_reference_data db0;
             latest_semester = latest_semester_of student;
             latest_period = latest_period_of student;
             level_obj = effective_level student;
             level_code = (case level_obj of Some l \<Rightarrow> l | None \<Rightarrow> [])
         in if level_code = [] then Inr (None, d, student)
            else if level_code = ''aali'' then
              (case latest_semester of
                 None \<Rightarrow> Inr (None, d, student)
               | Some current \<Rightarrow>
                   if \<not> passed_all d student (semester_subjects d level_obj current)
                   then Inr (None, d, student)
                   else if current \<ge> 4
                   then Inr (Some Graduated, d, student\<lparr>is_graduated := True\<rparr>)
                   else
                     (let d = d\<lparr>semester_table :=
                                   get_or_create (current + 1) (semester_table d)\<rparr>
                      in Inr (Some (PromotedSemester (current + 1)), d,
                              student\<lparr>semesters := [current + 1], is_graduated := False\<rparr>)))
            else if level_code = ''moteseta'' \<or> level_code = ''ebtedai'' then
              (case latest_period of
                 None \<Rightarrow> Inr (None, d, student)
               | Some current \<Rightarrow>
                   if \<not> passed_all d student (period_subjects d level_obj current)
                   then Inr (None, d, student)
                   else if current \<ge> 6
                   then Inr (Some Graduated, d, student\<lparr>is_graduated := True\<rparr>)
                   else
                     (let d = d\<lparr>period_table :=
                                   get_or_create (current + 1) (period_table d)\<rparr>
                      in Inr (Some (PromotedPeriod (current + 1)), d,
                              student\<lparr>periods := [current + 1], is_graduated := False\<rparr>)))
            else Inr (None, d, student)))"

text \<open>\<open>_can_graduate_ebtedai\<close>: the returned pair and the database.\<close>

definition can_graduate_ebtedai :: "db \<Rightarrow> student \<Rightarrow> (bool \<times> int option) \<times> db" where
  "can_graduate_ebtedai db0 student =
     (let level_obj = level_obj_of student;
          d = ensure_reference_data db0;
          level_obj = (case level_obj of Some l \<Rightarrow> Some l | None \<Rightarrow> map_of level_map ''ebtedai'')
      in if level_obj \<noteq> Some ''ebtedai'' then ((False, None), d)
         else
           (let latest_period = latest_period_of student
            in case latest_period of
                 None \<Rightarrow> ((False, latest_period), d)
               | Some n \<Rightarrow>
                   if n \<noteq> 6 then ((False, latest_period), d)
                   else ((passed_all d student (period_subjects d level_obj n), latest_period), d)))"

text \<open>
  \<open>student_promote_to_moteseta\<close>, for a POST request and a student that exists: which
  of its three messages the view shows, the database and the student.
\<close>

datatype promote_result = NotEligible | LevelMissing | Promoted

definition student_promote_to_moteseta :: "db \<Rightarrow> student \<Rightarrow> promote_result \<times> db \<times> student" where
  "student_promote_to_moteseta db0 student =
     (case can_graduate_ebtedai db0 student of
        ((can_graduate, _), d) \<Rightarrow>
          if \<not> can_graduate then (NotEligible, d, student)
          else
            (let d = ensure_reference_data d
             in case map_of level_map ''moteseta'' of
                  None \<Rightarrow> (LevelMissing, d, student)
                | Some moteseta \<Rightarrow>
                    (let d = d\<lparr>period_table := get_or_create 1 (period_table d)\<rparr>;
                         student = student\<lparr>level := Some moteseta, school_class := None,
                                           is_graduated := False\<rparr>;
                         student = student\<lparr>periods := [1]\<rparr>;
                         student = student\<lparr>semesters := []\<rparr>
                     in (Promoted, d, student))))"


section \<open>Notions the properties are stated with\<close>

text \<open>Calendar validity of a Gregorian date, and the dates \<open>datetime.date\<close> accepts.\<close>

definition valid_gregorian :: "int \<Rightarrow> int \<Rightarrow> int \<Rightarrow> bool" where
  "valid_gregorian y m d \<longleftrightarrow> 1 \<le> m \<and> m \<le> 12 \<and> 1 \<le> d \<and> d \<le> days_in_month y m"

definition date_accepted :: "date \<Rightarrow> bool" where
  "date_accepted t = (case t of (y, m, d) \<Rightarrow> 1 \<le> y \<and> y \<le> 9999 \<and> valid_gregorian y m d)"

text \<open>
  Calendar validity of a Jalali date, in the 33-year arithmetic calendar of the two
  converters: the years with remainder 1, 5, 9, 13, 17, 22, 26 or 30 modulo 33 have a
  30-day twelfth month. These are the years of 366 days in the day count of
  \<open>jalali_day_number\<close>.
\<close>

definition jalali_leap :: "int \<Rightarrow> bool" where
  "jalali_leap jy \<longleftrightarrow> jy mod 33 \<in> {1, 5, 9, 13, 17, 22, 26, 30}"

definition jalali_days_in_month :: "int \<Rightarrow> int \<Rightarrow> int" where
  "jalali_days_in_month jy jm =
     (if jm \<le> 6 then 31 else if jm \<le> 11 then 30 else if jalali_leap jy then 30 else 29)"

definition valid_jalali :: "int \<Rightarrow> int \<Rightarrow> int \<Rightarrow> bool" where
  "valid_jalali jy jm jd \<longleftrightarrow> 1 \<le> jm \<and> jm \<le> 12 \<and> 1 \<le> jd \<and> jd \<le> jalali_days_in_month jy jm"

text \<open>
  The leap-day count \<open>(gy2 + 3) // 4 - (gy2 + 99) // 100 + (gy2 + 399) // 400\<close> that both
  Gregorian-to-Jalali converters add to \<open>365 * gy\<close>.
\<close>

definition leap_count :: "int \<Rightarrow> int" where
  "leap_count y = (y + 3) div 4 - (y + 99) div 100 + (y + 399) div 400"

text \<open>
  Parts of the day-count arithmetic that the proofs name. \<open>quad\<close> is the split of a
  day count into four-year blocks of 1461 days that both directions use (the lines from
  \<open>4 * (days // 1461)\<close> to \<open>(days - 1) % 365\<close>), \<open>century\<close> the split into centuries of
  \<open>_jalali_to_gregorian\<close>. \<open>year_start\<close> and \<open>year_day\<close> are the Gregorian day count of
  \<open>_gregorian_to_jalali\<close>, less 1: the days before the year, and the days of the year
  before the date. \<open>jalali_year_start\<close> and \<open>jalali_year_day\<close> are the same for the day
  count of \<open>_jalali_to_gregorian\<close>, in years counted from 1595 before the Jalali epoch;
  \<open>jleap\<close> are the leap years in this count.
\<close>

definition quad :: "int \<Rightarrow> int \<times> int" where
  "quad d =
     (let y = 4 * (d div 1461); s = d mod 1461
      in if s > 365 then (y + (s - 1) div 365, (s - 1) mod 365) else (y, s))"

definition century :: "int \<Rightarrow> int \<times> int" where
  "century days =
     (if days > 36524
      then ((days - 1) div 36524,
            if (days - 1) mod 36524 \<ge> 365 then (days - 1) mod 36524 + 1 else (days - 1) mod 36524)
      else (0, days))"

definition year_start :: "int \<Rightarrow> int" where
  "year_start y = 365 * y + leap_count y"

definition year_day :: "int \<Rightarrow> int \<Rightarrow> int \<Rightarrow> int" where
  "year_day gy gm gd =
     g_d_m ! nat (gm - 1) + (if gm > 2 \<and> is_leap gy then 1 else 0) + gd - 1"

definition jalali_year_start :: "int \<Rightarrow> int" where
  "jalali_year_start y = 365 * y + (y div 33) * 8 + ((y mod 33) + 3) div 4"

definition jleap :: "int \<Rightarrow> bool" where
  "jleap y \<longleftrightarrow> (y mod 33) mod 4 = 0 \<and> y mod 33 \<noteq> 32"

definition jalali_year_day :: "int \<Rightarrow> int \<Rightarrow> int" where
  "jalali_year_day jm jd = (if jm < 7 then (jm - 1) * 31 else (jm - 7) * 30 + 186) + jd - 1"

definition jalali_month_length :: "bool \<Rightarrow> int \<Rightarrow> int" where
  "jalali_month_length l jm =
     (if jm \<le> 6 then 31 else if jm \<le> 11 then 30 else if l then 30 else 29)"

text \<open>
  Integrity of the tables: \<open>id\<close> is the primary key of \<open>Subject\<close>, and there is one
  \<open>StudentScore\<close> row for a student and a subject (the grade entry writes them with
  \<open>update_or_create(student, subject_id)\<close>).
\<close>

definition wf_db :: "db \<Rightarrow> bool" where
  "wf_db d \<longleftrightarrow>
     distinct (map subject_id (subject_table d)) \<and>
     distinct (map (\<lambda>r. (score_student r, score_subject r)) (score_table d))"

text \<open>
  The subjects a learner is examined in: those \<open>_auto_promote_student\<close> selects, none
  where it returns before selecting any.
\<close>

definition resolved_subjects :: "db \<Rightarrow> student \<Rightarrow> subject list" where
  "resolved_subjects d student =
     (case effective_level student of
        None \<Rightarrow> []
      | Some l \<Rightarrow>
          if l = ''aali'' then
            (case latest_semester_of student of
               None \<Rightarrow> []
             | Some n \<Rightarrow> semester_subjects d (Some l) n)
          else if l = ''moteseta'' \<or> l = ''ebtedai'' then
            (case latest_period_of student of
               None \<Rightarrow> []
             | Some n \<Rightarrow> period_subjects d (Some l) n)
          else [])"

text \<open>
  A subject is passed: the learner has a score row for it, with a score of 50 or more.
  It has no score: there is no row for it, or none with a score. It is failed: there is
  a row with a score below 50.
\<close>

definition passing :: "db \<Rightarrow> student \<Rightarrow> subject \<Rightarrow> bool" where
  "passing d student subj \<longleftrightarrow>
     (\<exists>r \<in> set (score_table d).
        score_student r = student_id student \<and> score_subject r = subject_id subj \<and>
        (case score r of Some v \<Rightarrow> 50 \<le> v | None \<Rightarrow> False))"

definition lacks_score :: "db \<Rightarrow> student \<Rightarrow> subject \<Rightarrow> bool" where
  "lacks_score d student subj \<longleftrightarrow>
     \<not> (\<exists>r \<in> set (score_table d).
          score_student r = student_id student \<and> score_subject r = subject_id subj \<and>
          score r \<noteq> None)"

definition failing :: "db \<Rightarrow> student \<Rightarrow> subject \<Rightarrow> bool" where
  "failing d student subj \<longleftrightarrow>
     (\<exists>r \<in> set (score_table d).
        score_student r = student_id student \<and> score_subject r = subject_id subj \<and>
        (case score r of Some v \<Rightarrow> v < 50 | None \<Rightarrow> False))"

text \<open>Example data: four subjects, the scores of learner 7, and learners built on \<open>learner\<close>.\<close>

definition example_db :: db where
  "example_db =
     \<lparr>study_levels = [], semester_table = [], period_table = [],
      subject_table =
        [\<lparr>subject_id = 1, subject_level = None, semester = Some 1, period = None\<rparr>,
         \<lparr>subject_id = 2, subject_level = Some ''ebtedai'', semester = None, period = Some 6\<rparr>,
         \<lparr>subject_id = 3, subject_level = Some ''aali'', semester = Some 4, period = None\<rparr>,
         \<lparr>subject_id = 4, subject_level = Some ''moteseta'', semester = None, period = Some 2\<rparr>],
      score_table =
        [\<lparr>score_student = 7, score_subject = 1, score = Some 60\<rparr>,
         \<lparr>score_student = 7, score_subject = 2, score = Some 50\<rparr>,
         \<lparr>score_student = 7, score_subject = 3, score = Some 49\<rparr>,
         \<lparr>score_student = 7, score_subject = 4, score = Some 70\<rparr>]\<rparr>"

definition learner :: student where
  "learner = \<lparr>student_id = 7, level = None, school_class = None, semesters = [],
              periods = [], is_graduated = False\<rparr>"

section \<open>The day-count arithmetic\<close>

lemma divmod_int:
  fixes x k :: int
  assumes "0 < k"
  obtains q r where "x div k = q" "x mod k = r" "x = k * q + r" "0 \<le> r" "r < k"
proof
  show "x div k = x div k" "x mod k = x mod k" by simp_all
  show "x = k * (x div k) + x mod k" by simp
  show "0 \<le> x mod k" "x mod k < k" using assms by simp_all
qed

lemma quad_props:
  assumes "quad d = (y, t)"
  shows "d = 365 * y + (y + 3) div 4 + t \<and> 0 \<le> t \<and> t \<le> (if y mod 4 = 0 then 365 else 364)
         \<and> y div 4 = d div 1461"
proof -
  obtain c s where cs: "d div 1461 = c" "d mod 1461 = s" "d = 1461 * c + s" "0 \<le> s" "s < 1461"
    by (rule divmod_int [of 1461 d]) simp
  show ?thesis
  proof (cases "s > 365")
    case True
    obtain e u where eu: "(s - 1) div 365 = e" "(s - 1) mod 365 = u" "s - 1 = 365 * e + u"
      "0 \<le> u" "u < 365"
      by (rule divmod_int [of 365 "s - 1"]) simp
    have e: "1 \<le> e" "e \<le> 3" using eu cs True by linarith+
    have y: "y = 4 * c + e" and t: "t = u"
      using assms True by (simp_all add: quad_def cs eu Let_def)
    have "y + 3 = 4 * (c + 1) + (e - 1)" using y by simp
    then have d4: "(y + 3) div 4 = c + 1"
      using e by (intro int_div_pos_eq [of _ _ _ "e - 1"]) simp_all
    have "y mod 4 = e" "y div 4 = c"
      using y e by (simp_all add: int_mod_pos_eq [of _ _ c e] int_div_pos_eq [of _ _ c e])
    with e d4 y t eu cs show ?thesis by simp
  next
    case False
    have y: "y = 4 * c" and t: "t = s"
      using assms False by (simp_all add: quad_def cs Let_def)
    have "y + 3 = 4 * c + 3" using y by simp
    then have d4: "(y + 3) div 4 = c"
      by (intro int_div_pos_eq [of _ _ _ 3]) simp_all
    have "y mod 4 = 0" "y div 4 = c" using y by simp_all
    with d4 y t cs False show ?thesis by simp
  qed
qed



lemma quad_tail:
  "(let gy = gy0 + 4 * (d div 1461); days = d mod 1461
    in if days > 365 then (gy + (days - 1) div 365, (days - 1) mod 365) else (gy, days))
   = (case quad d of (y, t) \<Rightarrow> (gy0 + y, t))"
  by (simp add: quad_def Let_def)

lemma gregorian_year_day_quad:
  "gregorian_year_day n =
     (case century (n mod 146097) of
        (b, d2) \<Rightarrow> (case quad d2 of (y, t) \<Rightarrow> (400 * (n div 146097) + 100 * b + y, t)))"
proof -
  have "gregorian_year_day n =
     (let gy = 400 * (n div 146097);
          days = n mod 146097;
          (gy, days) =
            (if days > 36524
             then (let gy = gy + 100 * ((days - 1) div 36524);
                       days = (days - 1) mod 36524
                   in (gy, if days \<ge> 365 then days + 1 else days))
             else (gy, days))
      in case quad days of (y, t) \<Rightarrow> (gy + y, t))"
    unfolding gregorian_year_day_def by (simp only: quad_tail)
  also have "\<dots> = (case century (n mod 146097) of
        (b, d2) \<Rightarrow> (case quad d2 of (y, t) \<Rightarrow> (400 * (n div 146097) + 100 * b + y, t)))"
    by (cases "n mod 146097 > 36524") (simp_all add: century_def Let_def add.assoc)
  finally show ?thesis .
qed

lemma century_props:
  assumes "century d1 = (b, d2)" and "0 \<le> d1" and "d1 < 146097"
  shows "0 \<le> b \<and> b \<le> 3 \<and> 0 \<le> d2 \<and> d2 \<le> 36524 \<and> (b \<noteq> 0 \<longrightarrow> d2 \<noteq> 365) \<and>
         d1 = 36524 * b + d2 + (if b = 0 \<or> 366 \<le> d2 then 0 else 1)"
proof (cases "d1 > 36524")
  case True
  obtain q r where qr: "(d1 - 1) div 36524 = q" "(d1 - 1) mod 36524 = r"
    "d1 - 1 = 36524 * q + r" "0 \<le> r" "r < 36524"
    by (rule divmod_int [of 36524 "d1 - 1"]) simp
  have q: "1 \<le> q" "q \<le> 3" using qr True assms by linarith+
  have "century d1 = (q, if r \<ge> 365 then r + 1 else r)"
    using True unfolding century_def qr(1,2) by simp
  with assms(1) have "b = q" "d2 = (if r \<ge> 365 then r + 1 else r)"
    by simp_all
  with q qr show ?thesis by auto
next
  case False
  then have "b = 0" "d2 = d1" using assms(1) by (simp_all add: century_def)
  with False assms show ?thesis by simp
qed

lemma leap_count_decomp:
  assumes "0 \<le> b" and "b \<le> 3" and "0 \<le> y" and "y \<le> 99"
  shows "leap_count (400 * a + 100 * b + y) =
           97 * a + 24 * b + (y + 3) div 4 - (if y = 0 then 0 else 1)
             + (if b = 0 \<and> y = 0 then 0 else 1)"
    and "is_leap (400 * a + 100 * b + y) \<longleftrightarrow> y mod 4 = 0 \<and> (y \<noteq> 0 \<or> b = 0)"
proof -
  let ?g = "400 * a + 100 * b + y"
  have "?g + 3 = (y + 3) + 4 * (100 * a + 25 * b)" by simp
  then have d4: "(?g + 3) div 4 = (y + 3) div 4 + (100 * a + 25 * b)"
    by (simp only: div_mult_self2)
  have "?g + 99 = 100 * (4 * a + b + (if y = 0 then 0 else 1)) + (if y = 0 then 99 else y - 1)"
    by simp
  then have d100: "(?g + 99) div 100 = 4 * a + b + (if y = 0 then 0 else 1)"
    using assms by (intro int_div_pos_eq [of _ _ _ "if y = 0 then 99 else y - 1"]) auto
  have "?g + 399 = 400 * (a + (if b = 0 \<and> y = 0 then 0 else 1))
                     + (if b = 0 \<and> y = 0 then 399 else 100 * b + y - 1)"
    by simp
  then have d400: "(?g + 399) div 400 = a + (if b = 0 \<and> y = 0 then 0 else 1)"
    using assms
    by (intro int_div_pos_eq [of _ _ _ "if b = 0 \<and> y = 0 then 399 else 100 * b + y - 1"]) auto
  show "leap_count ?g = 97 * a + 24 * b + (y + 3) div 4 - (if y = 0 then 0 else 1)
             + (if b = 0 \<and> y = 0 then 0 else 1)"
    unfolding leap_count_def d4 d100 d400 by simp
  have "?g = y + 4 * (100 * a + 25 * b)" by simp
  then have m4: "?g mod 4 = y mod 4"
    by (simp only: mod_mult_self2)
  have "?g = 100 * (4 * a + b) + y" by simp
  then have m100: "?g mod 100 = y"
    using assms by (intro int_mod_pos_eq [of _ _ "4 * a + b"]) simp_all
  have "?g = 400 * a + (100 * b + y)" by simp
  then have m400: "?g mod 400 = 100 * b + y"
    using assms by (intro int_mod_pos_eq [of _ _ a]) simp_all
  have z: "100 * b + y = 0 \<longleftrightarrow> b = 0 \<and> y = 0"
    using assms(1,3) by arith
  show "is_leap ?g \<longleftrightarrow> y mod 4 = 0 \<and> (y \<noteq> 0 \<or> b = 0)"
    unfolding is_leap_def m4 m100 m400 z by auto
qed



lemma ceil_div:
  fixes x k :: int
  assumes "0 < k"
  shows "(x + (k - 1)) div k = x div k + (if x mod k = 0 then 0 else 1)"
proof -
  obtain q r where qr: "x div k = q" "x mod k = r" "x = k * q + r" "0 \<le> r" "r < k"
    by (rule divmod_int [OF assms, of x])
  show ?thesis
  proof (cases "r = 0")
    case True
    then have "x + (k - 1) = k * q + (k - 1)" using qr by simp
    then have "(x + (k - 1)) div k = q"
      using assms by (intro int_div_pos_eq [of _ _ _ "k - 1"]) simp_all
    with True qr show ?thesis by simp
  next
    case False
    have "x + (k - 1) = k * (q + 1) + (r - 1)" using qr by (simp add: algebra_simps)
    then have "(x + (k - 1)) div k = q + 1"
      using False qr by (intro int_div_pos_eq [of _ _ _ "r - 1"]) simp_all
    with False qr show ?thesis by simp
  qed
qed

lemma partition_unique:
  fixes S len :: "int \<Rightarrow> int"
  assumes step: "\<And>y. S (y + 1) = S y + len y" and pos: "\<And>y. 0 \<le> len y"
    and eq: "S y + t = S y' + t'"
    and t: "0 \<le> t" "t < len y" and t': "0 \<le> t'" "t' < len y'"
  shows "y = y' \<and> t = t'"
proof -
  have mono: "S a \<le> S (a + int k)" for a k
  proof (induction k)
    case 0
    show ?case by simp
  next
    case (Suc k)
    have "a + int (Suc k) = (a + int k) + 1" by simp
    then have "S (a + int (Suc k)) = S (a + int k) + len (a + int k)"
      by (simp only: step)
    with pos [of "a + int k"] Suc show ?case by simp
  qed
  have next_le: "S a + len a \<le> S b" if "a < b" for a b
  proof -
    have "b = (a + 1) + int (nat (b - a - 1))" using that by simp
    then have "S (a + 1) \<le> S b" using mono [of "a + 1" "nat (b - a - 1)"] by simp
    then show ?thesis by (simp add: step)
  qed
  have "\<not> y < y'" using next_le [of y y'] eq t t' by auto
  moreover have "\<not> y' < y" using next_le [of y' y] eq t t' by auto
  ultimately have "y = y'" by simp
  with eq show ?thesis by simp
qed

lemma year_bounds:
  assumes "y div 4 = d div 1461" and "0 \<le> d" and "d \<le> 36524"
  shows "0 \<le> (y::int) \<and> y \<le> 99"
proof -
  obtain c s where cs: "d div 1461 = c" "d mod 1461 = s" "d = 1461 * c + s" "0 \<le> s" "s < 1461"
    by (rule divmod_int [of 1461 d]) simp
  obtain c' e where ce: "y div 4 = c'" "y mod 4 = e" "y = 4 * c' + e" "0 \<le> e" "e < 4"
    by (rule divmod_int [of 4 y]) simp
  have "c' = c" using assms(1) cs ce by simp
  moreover have "0 \<le> c" "c \<le> 24" using cs assms by linarith+
  ultimately show ?thesis using ce by simp
qed

lemma gregorian_year_day_props:
  assumes "gregorian_year_day n = (gy, t)"
  shows "n = 365 * gy + leap_count gy + t \<and> 0 \<le> t \<and> t \<le> (if is_leap gy then 365 else 364)"
proof -
  obtain a d1 where ad: "n div 146097 = a" "n mod 146097 = d1" "n = 146097 * a + d1"
    "0 \<le> d1" "d1 < 146097"
    by (rule divmod_int [of 146097 n]) simp
  obtain b d2 where c: "century d1 = (b, d2)" by (cases "century d1")
  obtain y t' where q: "quad d2 = (y, t')" by (cases "quad d2")
  have gy: "gy = 400 * a + 100 * b + y" and t: "t = t'"
    using assms by (simp_all add: gregorian_year_day_quad ad c q)
  note cp = century_props [OF c ad(4,5)]
  note qp = quad_props [OF q]
  define L4 where "L4 = (y + 3) div 4"
  have y: "0 \<le> y" "y \<le> 99"
    using year_bounds [of y d2] qp cp by simp_all
  have b: "0 \<le> b" "b \<le> 3" using cp by simp_all
  have lc: "leap_count gy = 97 * a + 24 * b + L4 - (if y = 0 then 0 else 1)
             + (if b = 0 \<and> y = 0 then 0 else 1)"
    and lp: "is_leap gy \<longleftrightarrow> y mod 4 = 0 \<and> (y \<noteq> 0 \<or> b = 0)"
    unfolding gy L4_def using leap_count_decomp [OF b y, of a] by simp_all
  have d2: "d2 = 365 * y + L4 + t" "0 \<le> t" "t \<le> (if y mod 4 = 0 then 365 else 364)"
    using qp t by (simp_all add: L4_def)
  have d1: "d1 = 36524 * b + d2 + (if b = 0 \<or> 366 \<le> d2 then 0 else 1)"
    and ne: "b \<noteq> 0 \<longrightarrow> d2 \<noteq> 365"
    using cp by simp_all
  have L4: "L4 = y div 4 + (if y mod 4 = 0 then 0 else 1)"
    unfolding L4_def using ceil_div [of 4 y] by simp
  show ?thesis
  proof (cases "y = 0")
    case True
    then have "L4 = 0" by (simp add: L4)
    with True d2 d1 ne lc lp gy ad(3) show ?thesis
      by (auto split: if_splits)
  next
    case False
    obtain c' e where ce: "y div 4 = c'" "y mod 4 = e" "y = 4 * c' + e" "0 \<le> e" "e < 4"
      by (rule divmod_int [of 4 y]) simp
    have "0 \<le> c'" using ce y by linarith
    have "1 \<le> L4"
      using False ce \<open>0 \<le> c'\<close> unfolding L4 by (auto split: if_splits)
    then have "366 \<le> d2" using d2 False y by linarith
    with False d2 d1 lc lp gy ad(3) show ?thesis
      by (auto split: if_splits)
  qed
qed



lemma month_cases:
  assumes "1 \<le> (gm::int)" and "gm \<le> 12"
  obtains "gm = 1" | "gm = 2" | "gm = 3" | "gm = 4" | "gm = 5" | "gm = 6"
    | "gm = 7" | "gm = 8" | "gm = 9" | "gm = 10" | "gm = 11" | "gm = 12"
proof -
  have "gm = 1 \<or> gm = 2 \<or> gm = 3 \<or> gm = 4 \<or> gm = 5 \<or> gm = 6
        \<or> gm = 7 \<or> gm = 8 \<or> gm = 9 \<or> gm = 10 \<or> gm = 11 \<or> gm = 12"
    using assms by arith
  then show thesis using that by blast
qed

lemma month_loop_encode:
  assumes "valid_gregorian gy gm gd"
  shows "month_loop [0, 31, if is_leap gy then 29 else 28, 31, 30, 31, 30, 31, 31, 30, 31, 30, 31]
           1 (year_day gy gm gd + 1) = (gm, gd)"
proof -
  have m: "1 \<le> gm" "gm \<le> 12" and d: "1 \<le> gd" "gd \<le> days_in_month gy gm"
    using assms by (simp_all add: valid_gregorian_def)
  from m show ?thesis
  proof (cases rule: month_cases)
    case 1 with d show ?thesis
      by (cases "is_leap gy") (simp_all add: year_day_def g_d_m_def days_in_month_def month_loop.simps)
  next
    case 2 with d show ?thesis
      by (cases "is_leap gy") (simp_all add: year_day_def g_d_m_def days_in_month_def month_loop.simps)
  next
    case 3 with d show ?thesis
      by (cases "is_leap gy") (simp_all add: year_day_def g_d_m_def days_in_month_def month_loop.simps)
  next
    case 4 with d show ?thesis
      by (cases "is_leap gy") (simp_all add: year_day_def g_d_m_def days_in_month_def month_loop.simps)
  next
    case 5 with d show ?thesis
      by (cases "is_leap gy") (simp_all add: year_day_def g_d_m_def days_in_month_def month_loop.simps)
  next
    case 6 with d show ?thesis
      by (cases "is_leap gy") (simp_all add: year_day_def g_d_m_def days_in_month_def month_loop.simps)
  next
    case 7 with d show ?thesis
      by (cases "is_leap gy") (simp_all add: year_day_def g_d_m_def days_in_month_def month_loop.simps)
  next
    case 8 with d show ?thesis
      by (cases "is_leap gy") (simp_all add: year_day_def g_d_m_def days_in_month_def month_loop.simps)
  next
    case 9 with d show ?thesis
      by (cases "is_leap gy") (simp_all add: year_day_def g_d_m_def days_in_month_def month_loop.simps)
  next
    case 10 with d show ?thesis
      by (cases "is_leap gy") (simp_all add: year_day_def g_d_m_def days_in_month_def month_loop.simps)
  next
    case 11 with d show ?thesis
      by (cases "is_leap gy") (simp_all add: year_day_def g_d_m_def days_in_month_def month_loop.simps)
  next
    case 12 with d show ?thesis
      by (cases "is_leap gy") (simp_all add: year_day_def g_d_m_def days_in_month_def month_loop.simps)
  qed
qed



lemma leap_step: "leap_count (y + 1) = leap_count y + (if is_leap y then 1 else 0)"
proof -
  have c4: "(y + 3) div 4 = y div 4 + (if y mod 4 = 0 then 0 else 1)"
    using ceil_div [of 4 y] by simp
  have c100: "(y + 99) div 100 = y div 100 + (if y mod 100 = 0 then 0 else 1)"
    using ceil_div [of 100 y] by simp
  have c400: "(y + 399) div 400 = y div 400 + (if y mod 400 = 0 then 0 else 1)"
    using ceil_div [of 400 y] by simp
  have s4: "(y + 1 + 3) div 4 = y div 4 + 1"
    using div_add_self2 [of 4 y] by (simp add: add.commute)
  have s100: "(y + 1 + 99) div 100 = y div 100 + 1"
    using div_add_self2 [of 100 y] by (simp add: add.commute)
  have s400: "(y + 1 + 399) div 400 = y div 400 + 1"
    using div_add_self2 [of 400 y] by (simp add: add.commute)
  have "y mod 100 = y mod 400 mod 100" "y mod 4 = y mod 100 mod 4"
    by (simp_all add: mod_mod_cancel)
  then have imp: "y mod 400 = 0 \<Longrightarrow> y mod 100 = 0" "y mod 100 = 0 \<Longrightarrow> y mod 4 = 0"
    by simp_all
  show ?thesis
    unfolding leap_count_def is_leap_def s4 s100 s400 c4 c100 c400
    using imp by auto
qed

lemma year_start_Suc:
  "year_start (y + 1) = year_start y + (if is_leap y then 366 else 365)"
  by (simp add: year_start_def leap_step)

lemma year_day_unique:
  assumes "year_start y + t = year_start y' + t'"
    and "0 \<le> t" and "t \<le> (if is_leap y then 365 else 364)"
    and "0 \<le> t'" and "t' \<le> (if is_leap y' then 365 else 364)"
  shows "y = y' \<and> t = t'"
proof (rule partition_unique [of year_start "\<lambda>y. if is_leap y then 366 else 365"])
  show "year_start (y + 1) = year_start y + (if is_leap y then 366 else 365)" for y
    by (rule year_start_Suc)
  show "0 \<le> (if is_leap y then 366 else 365 :: int)" for y by simp
  show "year_start y + t = year_start y' + t'" by (rule assms(1))
  show "0 \<le> t" "0 \<le> t'" by (rule assms)+
  show "t < (if is_leap y then 366 else 365)" using assms(3) by (simp split: if_splits)
  show "t' < (if is_leap y' then 366 else 365)" using assms(5) by (simp split: if_splits)
qed

lemma gregorian_year_day_encode:
  assumes "0 \<le> t" and "t \<le> (if is_leap gy then 365 else 364)"
  shows "gregorian_year_day (year_start gy + t) = (gy, t)"
proof -
  obtain gy' t' where g: "gregorian_year_day (year_start gy + t) = (gy', t')"
    by (cases "gregorian_year_day (year_start gy + t)")
  from gregorian_year_day_props [OF g]
  have "year_start gy + t = year_start gy' + t'" "0 \<le> t'"
    "t' \<le> (if is_leap gy' then 365 else 364)"
    by (simp_all add: year_start_def)
  from year_day_unique [OF this(1) assms this(2,3)] g show ?thesis by simp
qed

lemma year_day_bounds:
  assumes "valid_gregorian gy gm gd"
  shows "0 \<le> year_day gy gm gd \<and> year_day gy gm gd \<le> (if is_leap gy then 365 else 364)"
proof -
  have m: "1 \<le> gm" "gm \<le> 12" and d: "1 \<le> gd" "gd \<le> days_in_month gy gm"
    using assms by (simp_all add: valid_gregorian_def)
  from m show ?thesis
    by (cases rule: month_cases)
       (use d in \<open>auto simp: year_day_def g_d_m_def days_in_month_def split: if_splits\<close>)
qed

lemma year_day_month:
  assumes "1 \<le> gm" and "gm \<le> 12" and "year_day gy gm 1 \<le> t"
    and "t < year_day gy gm 1 + days_in_month gy gm"
  shows "valid_gregorian gy gm (t - year_day gy gm 1 + 1) \<and>
         year_day gy gm (t - year_day gy gm 1 + 1) = t"
  using assms by (simp add: valid_gregorian_def year_day_def)

lemma year_day_exists:
  assumes "0 \<le> t" and "t \<le> (if is_leap gy then 365 else 364)"
  shows "\<exists>gm gd. valid_gregorian gy gm gd \<and> year_day gy gm gd = t"
proof -
  define l :: int where "l = (if is_leap gy then 1 else 0)"
  have s: "year_day gy 1 1 = 0" "year_day gy 2 1 = 31" "year_day gy 3 1 = 59 + l"
    "year_day gy 4 1 = 90 + l" "year_day gy 5 1 = 120 + l" "year_day gy 6 1 = 151 + l"
    "year_day gy 7 1 = 181 + l" "year_day gy 8 1 = 212 + l" "year_day gy 9 1 = 243 + l"
    "year_day gy 10 1 = 273 + l" "year_day gy 11 1 = 304 + l" "year_day gy 12 1 = 334 + l"
    by (simp_all add: year_day_def g_d_m_def l_def)
  have n: "days_in_month gy 1 = 31" "days_in_month gy 2 = 28 + l" "days_in_month gy 3 = 31"
    "days_in_month gy 4 = 30" "days_in_month gy 5 = 31" "days_in_month gy 6 = 30"
    "days_in_month gy 7 = 31" "days_in_month gy 8 = 31" "days_in_month gy 9 = 30"
    "days_in_month gy 10 = 31" "days_in_month gy 11 = 30" "days_in_month gy 12 = 31"
    by (simp_all add: days_in_month_def l_def)
  have t: "t \<le> 364 + l" using assms(2) by (auto simp: l_def split: if_splits)
  have "\<exists>gm. 1 \<le> gm \<and> gm \<le> 12 \<and> year_day gy gm 1 \<le> t \<and>
          t < year_day gy gm 1 + days_in_month gy gm"
  proof -
    have m: "\<exists>gm. 1 \<le> gm \<and> gm \<le> 12 \<and> year_day gy gm 1 \<le> t \<and>
                 t < year_day gy gm 1 + days_in_month gy gm"
      if "1 \<le> k" "k \<le> 12" "year_day gy k 1 \<le> t" "t < year_day gy k 1 + days_in_month gy k"
      for k
      using that by blast
    consider (a) "t < 120 + l" | (b) "120 + l \<le> t" "t < 243 + l" | (c) "243 + l \<le> t"
      by linarith
    then show ?thesis
    proof cases
      case a
      then consider "t < 31" | "31 \<le> t" "t < 59 + l" | "59 + l \<le> t" "t < 90 + l"
        | "90 + l \<le> t" "t < 120 + l"
        by linarith
      then show ?thesis
      proof cases
        case 1 then show ?thesis using assms(1) by (intro m [of 1]) (simp_all add: s n)
      next
        case 2 then show ?thesis by (intro m [of 2]) (simp_all add: s n)
      next
        case 3 then show ?thesis by (intro m [of 3]) (simp_all add: s n)
      next
        case 4 then show ?thesis by (intro m [of 4]) (simp_all add: s n)
      qed
    next
      case b
      then consider "120 + l \<le> t" "t < 151 + l" | "151 + l \<le> t" "t < 181 + l"
        | "181 + l \<le> t" "t < 212 + l" | "212 + l \<le> t" "t < 243 + l"
        by linarith
      then show ?thesis
      proof cases
        case 1 then show ?thesis by (intro m [of 5]) (simp_all add: s n)
      next
        case 2 then show ?thesis by (intro m [of 6]) (simp_all add: s n)
      next
        case 3 then show ?thesis by (intro m [of 7]) (simp_all add: s n)
      next
        case 4 then show ?thesis by (intro m [of 8]) (simp_all add: s n)
      qed
    next
      case c
      then consider "243 + l \<le> t" "t < 273 + l" | "273 + l \<le> t" "t < 304 + l"
        | "304 + l \<le> t" "t < 334 + l" | "334 + l \<le> t"
        by linarith
      then show ?thesis
      proof cases
        case 1 then show ?thesis by (intro m [of 9]) (simp_all add: s n)
      next
        case 2 then show ?thesis by (intro m [of 10]) (simp_all add: s n)
      next
        case 3 then show ?thesis by (intro m [of 11]) (simp_all add: s n)
      next
        case 4 then show ?thesis using t by (intro m [of 12]) (simp_all add: s n)
      qed
    qed
  qed
  then obtain gm where "1 \<le> gm" "gm \<le> 12" "year_day gy gm 1 \<le> t"
    "t < year_day gy gm 1 + days_in_month gy gm"
    by blast
  from year_day_month [OF this] show ?thesis by blast
qed

lemma sal_a_leap:
  "[0, 31, if (gy mod 4 = 0 \<and> gy mod 100 \<noteq> 0) \<or> gy mod 400 = 0 then 29 else 28,
    31, 30, 31, 30, 31, 31, 30, 31, 30, 31]
   = [0, 31, if is_leap gy then 29 else 28, 31, 30, 31, 30, 31, 31, 30, 31, 30, (31::int)]"
  by (simp add: is_leap_def)

lemma gregorian_of_days_encode:
  assumes "valid_gregorian gy gm gd"
  shows "gregorian_of_days (year_start gy + year_day gy gm gd) = (gy, gm, gd)"
  using year_day_bounds [OF assms] month_loop_encode [OF assms]
  unfolding gregorian_of_days_def sal_a_leap
  by (simp add: gregorian_year_day_encode)

lemma gregorian_of_days_props:
  assumes "gregorian_of_days n = (gy, gm, gd)"
  shows "valid_gregorian gy gm gd \<and> n = year_start gy + year_day gy gm gd"
proof -
  obtain gy' t where g: "gregorian_year_day n = (gy', t)"
    by (cases "gregorian_year_day n")
  note p = gregorian_year_day_props [OF g]
  then obtain gm' gd' where v: "valid_gregorian gy' gm' gd'" and t: "year_day gy' gm' gd' = t"
    using year_day_exists [of t gy'] by blast
  have "n = year_start gy' + year_day gy' gm' gd'"
    using p t by (simp add: year_start_def)
  with gregorian_of_days_encode [OF v] assms v show ?thesis by simp
qed



lemma jalali_of_days_quad:
  "jalali_of_days jy0 n =
     (case quad (n mod 12053) of
        (y, t) \<Rightarrow> (jy0 + 33 * (n div 12053) + y,
                   if t < 186 then 1 + t div 31 else 7 + (t - 186) div 30,
                   if t < 186 then 1 + t mod 31 else 1 + (t - 186) mod 30))"
proof (cases "n mod 12053 mod 1461 > 365")
  case True
  show ?thesis
    unfolding jalali_of_days_def quad_def Let_def
    by (simp only: True if_True prod.case add.assoc)
next
  case False
  show ?thesis
    unfolding jalali_of_days_def quad_def Let_def
    by (simp only: False if_False prod.case add.assoc)
qed

lemma jalali_year_start_Suc:
  "jalali_year_start (y + 1) = jalali_year_start y + (if jleap y then 366 else 365)"
proof -
  obtain q r where qr: "y div 33 = q" "y mod 33 = r" "y = 33 * q + r" "0 \<le> r" "r < 33"
    by (rule divmod_int [of 33 y]) simp
  show ?thesis
  proof (cases "r = 32")
    case True
    have "y + 1 = 33 * (q + 1) + 0" using qr True by simp
    then have "(y + 1) div 33 = q + 1" "(y + 1) mod 33 = 0"
      by (simp_all only: int_div_pos_eq [of _ 33 "q + 1" 0] int_mod_pos_eq [of _ 33 "q + 1" 0])
    with qr True show ?thesis
      by (simp add: jalali_year_start_def jleap_def)
  next
    case False
    have "y + 1 = 33 * q + (r + 1)" using qr by simp
    moreover have "0 \<le> r + 1" "r + 1 < 33" using qr False by simp_all
    ultimately have s: "(y + 1) div 33 = q" "(y + 1) mod 33 = r + 1"
      using int_div_pos_eq [of "y + 1" 33 q "r + 1"] int_mod_pos_eq [of "y + 1" 33 q "r + 1"]
      by simp_all
    obtain a b where ab: "r div 4 = a" "r mod 4 = b"
      by simp
    have c: "(r + 3) div 4 = a + (if b = 0 then 0 else 1)"
      using ceil_div [of 4 r] ab by simp
    have d: "(r + 1 + 3) div 4 = a + 1"
      using div_add_self2 [of 4 r] ab by (simp add: add.commute)
    have j: "jleap y \<longleftrightarrow> b = 0"
      unfolding jleap_def qr(2) ab(2) using False by simp
    show ?thesis
      unfolding jalali_year_start_def s qr(1,2) c d j by simp
  qed
qed

lemma jalali_year_unique:
  assumes "jalali_year_start y + t = jalali_year_start y' + t'"
    and "0 \<le> t" and "t \<le> (if jleap y then 365 else 364)"
    and "0 \<le> t'" and "t' \<le> (if jleap y' then 365 else 364)"
  shows "y = y' \<and> t = t'"
proof (rule partition_unique [of jalali_year_start "\<lambda>y. if jleap y then 366 else 365"])
  show "jalali_year_start (y + 1) = jalali_year_start y + (if jleap y then 366 else 365)" for y
    by (rule jalali_year_start_Suc)
  show "0 \<le> (if jleap y then 366 else 365 :: int)" for y by simp
  show "jalali_year_start y + t = jalali_year_start y' + t'" by (rule assms(1))
  show "0 \<le> t" "0 \<le> t'" by (rule assms)+
  show "t < (if jleap y then 366 else 365)" using assms(3) by (simp split: if_splits)
  show "t' < (if jleap y' then 366 else 365)" using assms(5) by (simp split: if_splits)
qed

lemma jalali_year_props:
  assumes "quad (n mod 12053) = (y, t)"
  shows "n = jalali_year_start (33 * (n div 12053) + y) + t \<and> 0 \<le> t \<and>
         t \<le> (if jleap (33 * (n div 12053) + y) then 365 else 364)"
proof -
  obtain q r where qr: "n div 12053 = q" "n mod 12053 = r" "n = 12053 * q + r"
    "0 \<le> r" "r < 12053"
    by (rule divmod_int [of 12053 n]) simp
  have qd: "quad r = (y, t)" using assms qr by simp
  note qp = quad_props [OF qd]
  define L4 where "L4 = (y + 3) div 4"
  obtain c s where cs: "r div 1461 = c" "r mod 1461 = s" "r = 1461 * c + s" "0 \<le> s" "s < 1461"
    by (rule divmod_int [of 1461 r]) simp
  obtain c' e where ce: "y div 4 = c'" "y mod 4 = e" "y = 4 * c' + e" "0 \<le> e" "e < 4"
    by (rule divmod_int [of 4 y]) simp
  have cc: "c' = c" using qp cs ce by simp
  have c: "0 \<le> c" "c \<le> 8" using cs qr by linarith+
  have L4: "L4 = c + (if e = 0 then 0 else 1)"
    unfolding L4_def using ceil_div [of 4 y] ce cc by simp
  have r: "r = 365 * y + L4 + t" and t: "0 \<le> t"
    using qp by (simp_all add: L4_def)
  have t365: "t \<le> (if e = 0 then 365 else 364)"
    using qp ce(2) by simp
  have e0: "e = 0" if "c = 8"
  proof (rule ccontr)
    assume "e \<noteq> 0"
    with L4 have "L4 = c + 1" by simp
    with r t(1) ce(3,4) cc that qr(5) \<open>e \<noteq> 0\<close> show False by linarith
  qed
  have y: "0 \<le> y" "y \<le> 32"
  proof -
    show "0 \<le> y" using ce cc c by linarith
    show "y \<le> 32"
    proof (cases "c = 8")
      case True
      with e0 ce cc show ?thesis by simp
    next
      case False
      with c ce cc show ?thesis by linarith
    qed
  qed
  have "33 * q + y = 33 * q + y" by simp
  then have dm: "(33 * q + y) div 33 = q" "(33 * q + y) mod 33 = y"
    using y int_div_pos_eq [of "33 * q + y" 33 q y] int_mod_pos_eq [of "33 * q + y" 33 q y]
    by simp_all
  have start: "jalali_year_start (33 * q + y) = 12053 * q + 365 * y + L4"
    unfolding jalali_year_start_def dm L4_def by simp
  have "y = 32 \<longrightarrow> t \<le> 364"
  proof
    assume y32: "y = 32"
    have "e = 0" using ce(2) y32 by simp
    moreover from this have "c = 8" using ce(3) cc y32 by simp
    ultimately have "L4 = 8" using L4 by simp
    with r y32 qr(5) show "t \<le> 364" by linarith
  qed
  moreover have "jleap (33 * q + y) \<longleftrightarrow> e = 0 \<and> y \<noteq> 32"
    unfolding jleap_def dm ce(2) ..
  ultimately have "t \<le> (if jleap (33 * q + y) then 365 else 364)"
    using t365 by (auto split: if_splits)
  with start r t qr show ?thesis by simp
qed

lemma jalali_year_encode:
  assumes "0 \<le> t" and "t \<le> (if jleap y then 365 else 364)"
  shows "case quad ((jalali_year_start y + t) mod 12053) of
           (y', t') \<Rightarrow> 33 * ((jalali_year_start y + t) div 12053) + y' = y \<and> t' = t"
proof -
  let ?n = "jalali_year_start y + t"
  obtain y' t' where q: "quad (?n mod 12053) = (y', t')"
    by (cases "quad (?n mod 12053)")
  from jalali_year_props [OF q]
  have "?n = jalali_year_start (33 * (?n div 12053) + y') + t'" "0 \<le> t'"
    "t' \<le> (if jleap (33 * (?n div 12053) + y') then 365 else 364)"
    by simp_all
  from jalali_year_unique [OF this(1) assms this(2,3)]
  have u: "y = 33 * (?n div 12053) + y'" "t = t'" by blast+
  show ?thesis
    unfolding q prod.case by (intro conjI; rule sym) (rule u)+
qed



lemma jalali_month_day_encode:
  assumes "1 \<le> jm" and "jm \<le> 12" and "1 \<le> jd" and "jd \<le> jalali_month_length l jm"
    and t_def: "t = jalali_year_day jm jd"
  shows "0 \<le> t \<and> t \<le> (if l then 365 else 364) \<and>
         (if t < 186 then 1 + t div 31 else 7 + (t - 186) div 30) = jm \<and>
         (if t < 186 then 1 + t mod 31 else 1 + (t - 186) mod 30) = jd"
proof (cases "jm < 7")
  case True
  define u v where "u = jm - 1" and "v = jd - 1"
  have t: "t = 31 * u + v"
    using True by (simp add: t_def jalali_year_day_def u_def v_def)
  have v: "0 \<le> v" "v < 31"
    using assms(3,4) True by (simp_all add: jalali_month_length_def v_def)
  have u: "0 \<le> u" "u \<le> 5" using assms(1) True by (simp_all add: u_def)
  have "t div 31 = u" "t mod 31 = v"
    using t v int_div_pos_eq [of t 31 u v] int_mod_pos_eq [of t 31 u v]
    by simp_all
  moreover have "0 \<le> t" using t u v by linarith
  moreover have "t < 186" using t u v by linarith
  ultimately show ?thesis by (simp add: u_def v_def split: if_splits)
next
  case False
  define u v where "u = jm - 7" and "v = jd - 1"
  have t: "t - 186 = 30 * u + v"
    using False by (simp add: t_def jalali_year_day_def u_def v_def)
  have v: "0 \<le> v" "v < 30"
    using assms(3,4) False by (simp_all add: jalali_month_length_def v_def split: if_splits)
  have u: "0 \<le> u" "u \<le> 5" using assms(2) False by (simp_all add: u_def)
  have "(t - 186) div 30 = u" "(t - 186) mod 30 = v"
    using t v int_div_pos_eq [of "t - 186" 30 u v] int_mod_pos_eq [of "t - 186" 30 u v]
    by simp_all
  moreover have "186 \<le> t" using t u v by linarith
  moreover have "t \<le> (if l then 365 else 364)"
  proof (cases "u = 5")
    case True
    then have "jm = 12" by (simp add: u_def)
    with assms(4) have "v \<le> (if l then 29 else 28)"
      by (simp add: jalali_month_length_def v_def split: if_splits)
    with t True show ?thesis by (simp split: if_splits)
  next
    case ne: False
    with u have "u \<le> 4" by simp
    with t v show ?thesis by (simp split: if_splits)
  qed
  ultimately show ?thesis by (simp add: u_def v_def split: if_splits)
qed

lemma jalali_month_day_decode:
  assumes "0 \<le> t" and "t \<le> (if l then 365 else 364)"
  defines "jm \<equiv> (if t < 186 then 1 + t div 31 else 7 + (t - 186) div 30)"
    and "jd \<equiv> (if t < 186 then 1 + t mod 31 else 1 + (t - 186) mod 30)"
  shows "1 \<le> jm \<and> jm \<le> 12 \<and> 1 \<le> jd \<and> jd \<le> jalali_month_length l jm \<and>
         jalali_year_day jm jd = t"
proof (cases "t < 186")
  case True
  obtain u v where uv: "t div 31 = u" "t mod 31 = v" "t = 31 * u + v" "0 \<le> v" "v < 31"
    by (rule divmod_int [of 31 t]) simp
  have u: "0 \<le> u" "u \<le> 5" using uv True assms(1) by linarith+
  have "jm = 1 + u" "jd = 1 + v" using True by (simp_all add: jm_def jd_def uv)
  with u uv show ?thesis
    by (simp add: jalali_month_length_def jalali_year_day_def)
next
  case False
  obtain u v where uv: "(t - 186) div 30 = u" "(t - 186) mod 30 = v" "t - 186 = 30 * u + v"
    "0 \<le> v" "v < 30"
    by (rule divmod_int [of 30 "t - 186"]) simp
  have t: "t \<le> 365" "\<not> l \<Longrightarrow> t \<le> 364" using assms(2) by (simp_all split: if_splits)
  have u: "0 \<le> u" "u \<le> 5" using uv False t(1) by linarith+
  have j: "jm = 7 + u" "jd = 1 + v" using False by (simp_all add: jm_def jd_def uv)
  have "jd \<le> jalali_month_length l jm"
  proof (cases "u = 5")
    case True
    with uv t j show ?thesis
      by (cases l) (simp_all add: jalali_month_length_def)
  next
    case ne: False
    with u uv j show ?thesis by (simp add: jalali_month_length_def)
  qed
  with u uv j show ?thesis
    by (simp add: jalali_year_day_def)
qed

lemma jalali_of_days_encode:
  assumes "1 \<le> jm" and "jm \<le> 12" and "1 \<le> jd" and "jd \<le> jalali_month_length (jleap y) jm"
  shows "jalali_of_days jy0 (jalali_year_start y + jalali_year_day jm jd) = (jy0 + y, jm, jd)"
proof -
  let ?t = "jalali_year_day jm jd"
  let ?n = "jalali_year_start y + ?t"
  note m = jalali_month_day_encode [OF assms refl]
  obtain y' t' where q: "quad (?n mod 12053) = (y', t')"
    by (cases "quad (?n mod 12053)")
  have "33 * (?n div 12053) + y' = y \<and> t' = ?t"
    using jalali_year_encode [of ?t y] m q by simp
  then show ?thesis
    using m by (simp add: jalali_of_days_quad q add.assoc)
qed

lemma jalali_of_days_props:
  assumes "jalali_of_days jy0 n = (jy, jm, jd)"
  shows "n = jalali_year_start (jy - jy0) + jalali_year_day jm jd \<and>
         1 \<le> jm \<and> jm \<le> 12 \<and> 1 \<le> jd \<and> jd \<le> jalali_month_length (jleap (jy - jy0)) jm"
proof -
  obtain y t where q: "quad (n mod 12053) = (y, t)"
    by (cases "quad (n mod 12053)")
  note p = jalali_year_props [OF q]
  have r: "jy = jy0 + 33 * (n div 12053) + y"
    "jm = (if t < 186 then 1 + t div 31 else 7 + (t - 186) div 30)"
    "jd = (if t < 186 then 1 + t mod 31 else 1 + (t - 186) mod 30)"
    using assms by (simp_all add: jalali_of_days_quad q)
  have y: "jy - jy0 = 33 * (n div 12053) + y" using r(1) by simp
  from p have t: "0 \<le> t" "t \<le> (if jleap (jy - jy0) then 365 else 364)"
    and n: "n = jalali_year_start (jy - jy0) + t"
    unfolding y by simp_all
  from jalali_month_day_decode [OF t] n show ?thesis
    unfolding r(2,3) by simp
qed

lemma jalali_leap_shift: "jalali_leap jy \<longleftrightarrow> jleap (jy + 1595)"
proof -
  obtain q w where qw: "jy div 33 = q" "jy mod 33 = w" "jy = 33 * q + w" "0 \<le> w" "w < 33"
    by (rule divmod_int [of 33 jy]) simp
  obtain c e where ce: "w div 4 = c" "w mod 4 = e" "w = 4 * c + e" "0 \<le> e" "e < 4"
    by (rule divmod_int [of 4 w]) simp
  have c: "0 \<le> c" "c \<le> 8" using ce qw by linarith+
  show ?thesis
  proof (cases "w < 22")
    case True
    have "jy + 1595 = 33 * (q + 48) + (w + 11)" using qw by simp
    then have m: "(jy + 1595) mod 33 = w + 11"
      using True qw by (intro int_mod_pos_eq [of _ _ "q + 48"]) simp_all
    have "w + 11 = 4 * (c + 2) + (e + 3)" using ce by simp
    then have "(w + 11) mod 4 = (e + 3) mod 4"
      by (simp only: mod_mult_self4)
    then have m4: "(w + 11) mod 4 = 0 \<longleftrightarrow> e = 1"
      using ce(4,5) by (cases "e = 0"; cases "e = 1"; cases "e = 2"; cases "e = 3") simp_all+
    have "(w = 1 \<or> w = 5 \<or> w = 9 \<or> w = 13 \<or> w = 17 \<or> w = 22 \<or> w = 26 \<or> w = 30)
            \<longleftrightarrow> e = 1 \<and> w + 11 \<noteq> 32"
      using True ce(3,4,5) c by presburger
    then have "w \<in> {1, 5, 9, 13, 17, 22, 26, 30} \<longleftrightarrow> e = 1 \<and> w + 11 \<noteq> 32"
      by simp
    then show ?thesis
      unfolding jalali_leap_def jleap_def qw(2) m m4 by simp
  next
    case False
    have "jy + 1595 = 33 * (q + 49) + (w - 22)" using qw by simp
    then have m: "(jy + 1595) mod 33 = w - 22"
      using False qw by (intro int_mod_pos_eq [of _ _ "q + 49"]) simp_all
    have "w - 22 = 4 * (c - 6) + (e + 2)" using ce by simp
    then have "(w - 22) mod 4 = (e + 2) mod 4"
      by (simp only: mod_mult_self4)
    then have m4: "(w - 22) mod 4 = 0 \<longleftrightarrow> e = 2"
      using ce(4,5) by (cases "e = 0"; cases "e = 1"; cases "e = 2"; cases "e = 3") simp_all+
    have "(w = 1 \<or> w = 5 \<or> w = 9 \<or> w = 13 \<or> w = 17 \<or> w = 22 \<or> w = 26 \<or> w = 30)
            \<longleftrightarrow> e = 2"
      using False ce(3,4,5) c qw(5) by presburger
    then have "w \<in> {1, 5, 9, 13, 17, 22, 26, 30} \<longleftrightarrow> e = 2"
      by simp
    then show ?thesis
      unfolding jalali_leap_def jleap_def qw(2) m m4 using False qw by simp
  qed
qed

lemma jalali_of_days_shift:
  "jalali_of_days jy0 (n + 12053 * k) = jalali_of_days (jy0 + 33 * k) n"
proof -
  have "(n + 12053 * k) div 12053 = n div 12053 + k" by simp
  moreover have "(n + 12053 * k) mod 12053 = n mod 12053" by simp
  moreover have "jy0 + 33 * (n div 12053 + k) = jy0 + 33 * k + 33 * (n div 12053)"
    by (simp add: algebra_simps)
  ultimately show ?thesis
    unfolding jalali_of_days_def by (simp only:)
qed

lemma leap_count_shift_1600: "leap_count (y - 1600) = leap_count y - 388"
proof -
  have "y - 1600 + 3 = (y + 3) + 4 * (- 400)"
    and "y - 1600 + 99 = (y + 99) + 100 * (- 16)"
    and "y - 1600 + 399 = (y + 399) + 400 * (- 4)"
    by simp_all
  then have "(y - 1600 + 3) div 4 = (y + 3) div 4 - 400"
    and "(y - 1600 + 99) div 100 = (y + 99) div 100 - 16"
    and "(y - 1600 + 399) div 400 = (y + 399) div 400 - 4"
    by (simp_all only: div_mult_self2)
  then show ?thesis
    unfolding leap_count_def by (simp only:)
qed

lemma gregorian_to_jalali_days:
  "py_index g_d_m (gm - 1) = Inr off \<Longrightarrow>
   gregorian_to_jalali gy gm gd =
     Inr (jalali_of_days (- 1595)
            (355666 + 365 * gy + leap_count (if gm > 2 then gy + 1 else gy) + gd + off))"
  by (simp add: gregorian_to_jalali_def leap_count_def Let_def algebra_simps)

lemma gregorian_to_jalali_views_days:
  "py_index g_d_m (gm - 1) = Inr off \<Longrightarrow> gy > 1600 \<Longrightarrow>
   gregorian_to_jalali_views gy gm gd =
     Inr (jalali_of_days 979
            (365 * (gy - 1600) + leap_count ((if gm > 2 then gy + 1 else gy) - 1600) - 80 + gd + off))"
  by (simp add: gregorian_to_jalali_views_def leap_count_def Let_def algebra_simps)

section \<open>The round trip between the calendars\<close>

lemma gregorian_to_jalali_day_number:
  assumes "1 \<le> gm" and "gm \<le> 12"
  shows "gregorian_to_jalali gy gm gd =
           Inr (jalali_of_days (- 1595) (355667 + year_start gy + year_day gy gm gd))"
proof -
  have i: "py_index g_d_m (gm - 1) = Inr (g_d_m ! nat (gm - 1))"
    using assms by (simp add: py_index_def g_d_m_def)
  define off where "off = g_d_m ! nat (gm - 1)"
  define gy2 where "gy2 = (if gm > 2 then gy + 1 else gy)"
  have l: "leap_count gy2 = leap_count gy + (if gm > 2 \<and> is_leap gy then 1 else 0)"
    by (simp add: gy2_def leap_step)
  have "355666 + 365 * gy + leap_count gy2 + gd + off
          = 355667 + year_start gy + year_day gy gm gd"
    unfolding l year_start_def year_day_def off_def by simp
  then show ?thesis
    using i by (simp only: gregorian_to_jalali_days gy2_def off_def)
qed

lemma jalali_day_number_eq:
  "jalali_day_number jy jm jd =
     jalali_year_start (jy + 1595) + jalali_year_day jm jd - 355667"
  by (simp add: jalali_day_number_def jalali_year_start_def jalali_year_day_def Let_def)

lemma valid_jalali_month_length:
  "valid_jalali jy jm jd \<longleftrightarrow>
     1 \<le> jm \<and> jm \<le> 12 \<and> 1 \<le> jd \<and> jd \<le> jalali_month_length (jleap (jy + 1595)) jm"
  by (simp add: valid_jalali_def jalali_days_in_month_def jalali_month_length_def
      jalali_leap_shift)

text \<open>
  The years that \<open>jalali_leap\<close> names are the years of 366 days in the day count of
  \<open>_jalali_to_gregorian\<close>.
\<close>

lemma jalali_year_length:
  "jalali_day_number (jy + 1) 1 1 - jalali_day_number jy 1 1 =
     (if jalali_leap jy then 366 else 365)"
proof -
  have "jy + 1 + 1595 = (jy + 1595) + 1" by simp
  then have "jalali_year_start (jy + 1 + 1595) =
               jalali_year_start (jy + 1595) + (if jleap (jy + 1595) then 366 else 365)"
    by (simp only: jalali_year_start_Suc)
  then show ?thesis
    by (simp add: jalali_day_number_eq jalali_leap_shift)
qed

text \<open>
  C9: a valid Gregorian date, of any year, converted to the Jalali calendar and back is
  the same date, and a valid Jalali date converted to the Gregorian calendar and back
  is the same date.
\<close>

theorem calendar_round_trip:
  "(valid_gregorian gy gm gd \<longrightarrow>
      map_sum id (\<lambda>(jy, jm, jd). jalali_to_gregorian jy jm jd) (gregorian_to_jalali gy gm gd)
        = Inr (gy, gm, gd)) \<and>
   (valid_jalali jy jm jd \<longrightarrow>
      (case jalali_to_gregorian jy jm jd of (gy, gm, gd) \<Rightarrow> gregorian_to_jalali gy gm gd)
        = Inr (jy, jm, jd))"
proof (intro conjI impI)
  assume v: "valid_gregorian gy gm gd"
  then have m: "1 \<le> gm" "gm \<le> 12" by (simp_all add: valid_gregorian_def)
  let ?n = "year_start gy + year_day gy gm gd"
  let ?k = "355667 + year_start gy + year_day gy gm gd"
  obtain y m d where j: "jalali_of_days (- 1595) ?k = (y, m, d)"
    by (cases "jalali_of_days (- 1595) ?k")
  from jalali_of_days_props [OF j]
  have "?k = jalali_year_start (y + 1595) + jalali_year_day m d" by simp
  then have "jalali_day_number y m d = ?n"
    by (simp add: jalali_day_number_eq)
  then have "jalali_to_gregorian y m d = (gy, gm, gd)"
    by (simp add: jalali_to_gregorian_def gregorian_of_days_encode [OF v])
  then show "map_sum id (\<lambda>(jy, jm, jd). jalali_to_gregorian jy jm jd)
               (gregorian_to_jalali gy gm gd) = Inr (gy, gm, gd)"
    by (simp add: gregorian_to_jalali_day_number [OF m] j)
next
  assume v: "valid_jalali jy jm jd"
  let ?n = "jalali_day_number jy jm jd"
  obtain y m d where g: "gregorian_of_days ?n = (y, m, d)"
    by (cases "gregorian_of_days ?n")
  from gregorian_of_days_props [OF g]
  have vg: "valid_gregorian y m d" and n: "?n = year_start y + year_day y m d"
    by simp_all
  from vg have m: "1 \<le> m" "m \<le> 12" by (simp_all add: valid_gregorian_def)
  have "355667 + (year_start y + year_day y m d)
          = jalali_year_start (jy + 1595) + jalali_year_day jm jd"
    using n by (simp add: jalali_day_number_eq)
  then have "jalali_of_days (- 1595) (355667 + year_start y + year_day y m d) = (jy, jm, jd)"
    using v jalali_of_days_encode [of jm jd "jy + 1595" "- 1595"]
    by (simp add: valid_jalali_month_length add.assoc)
  then show "(case jalali_to_gregorian jy jm jd of (gy, gm, gd) \<Rightarrow> gregorian_to_jalali gy gm gd)
               = Inr (jy, jm, jd)"
    by (simp add: jalali_to_gregorian_def g gregorian_to_jalali_day_number [OF m])
qed

text \<open>
  29 February 2024 and 30 Esfand 1403, the leap days of the two calendars, go there and
  back.
\<close>

theorem calendar_round_trip_witness:
  "map_sum id (\<lambda>(jy, jm, jd). jalali_to_gregorian jy jm jd) (gregorian_to_jalali 2024 2 29)
     = Inr (2024, 2, 29) \<and>
   (case jalali_to_gregorian 1403 12 30 of (gy, gm, gd) \<Rightarrow> gregorian_to_jalali gy gm gd)
     = Inr (1403, 12, 30)"
proof -
  have "valid_gregorian 2024 2 29"
    by (simp add: valid_gregorian_def days_in_month_def is_leap_def)
  moreover have "valid_jalali 1403 12 30"
    by (simp add: valid_jalali_def jalali_days_in_month_def jalali_leap_def)
  ultimately show ?thesis
    using calendar_round_trip [of 2024 2 29 1403 12 30] by blast
qed

section \<open>The two Gregorian-to-Jalali converters\<close>

text \<open>
  The branch of the \<open>views.py\<close> converter for the years after 1600 agrees with the
  converter of \<open>forms.py\<close>, whatever the month and the day are.
\<close>

lemma converters_agree_after_1600:
  assumes "gy > 1600"
  shows "gregorian_to_jalali_views gy gm gd = gregorian_to_jalali gy gm gd"
proof (cases "py_index g_d_m (gm - 1)")
  case (Inl e)
  with assms show ?thesis
    by (simp add: gregorian_to_jalali_views_def gregorian_to_jalali_def)
next
  case (Inr off)
  define gy2 where "gy2 = (if gm > 2 then gy + 1 else gy)"
  define dv where "dv = 365 * (gy - 1600) + leap_count (gy2 - 1600) - 80 + gd + off"
  have eq: "355666 + 365 * gy + leap_count gy2 + gd + off = dv + 12053 * 78"
    unfolding dv_def leap_count_shift_1600 by simp
  have "jalali_of_days (- 1595) (355666 + 365 * gy + leap_count gy2 + gd + off)
          = jalali_of_days (- 1595) (dv + 12053 * 78)"
    by (simp only: eq)
  also have "\<dots> = jalali_of_days (- 1595 + 33 * 78) dv"
    by (rule jalali_of_days_shift)
  also have "\<dots> = jalali_of_days 979 dv"
    by simp
  finally have "jalali_of_days (- 1595) (355666 + 365 * gy + leap_count gy2 + gd + off)
          = jalali_of_days 979 dv" .
  then show ?thesis
    using Inr assms
    by (simp only: gregorian_to_jalali_days gregorian_to_jalali_views_days gy2_def dv_def)
qed

text \<open>
  20 March 2024 is 1 Farvardin 1403 in both converters.
\<close>

lemma converters_agree_on_2024_03_20:
  "gregorian_to_jalali_views 2024 3 20 = Inr (1403, 1, 1) \<and>
   gregorian_to_jalali 2024 3 20 = Inr (1403, 1, 1)"
proof -
  have "gregorian_to_jalali 2024 3 20 = Inr (1403, 1, 1)"
    by (simp add: gregorian_to_jalali_def py_index_def g_d_m_def jalali_of_days_def Let_def)
  with converters_agree_after_1600 [of 2024 3 20] show ?thesis by simp
qed

text \<open>
  C10: the two converters are meant to return the same Jalali date for every valid
  Gregorian date, and the code of \<open>views.py\<close> does not: in its branch for the years up to
  1600 it takes 621 from the year and so counts the leap days of the wrong years. For
  1 March 1600, a valid date, it returns 10 Esfand 978, the date it also returns for the
  day before, 29 February 1600. The converter of \<open>forms.py\<close> returns 10 Esfand 978 for
  29 February and 11 Esfand 978 for 1 March, and \<open>_jalali_to_gregorian\<close> takes 11 Esfand 978
  back to 1 March 1600.
\<close>

theorem views_converter_wrong_on_1600_03_01:
  "valid_gregorian 1600 2 29 \<and> valid_gregorian 1600 3 1 \<and>
   gregorian_to_jalali_views 1600 2 29 = Inr (978, 12, 10) \<and>
   gregorian_to_jalali_views 1600 3 1 = Inr (978, 12, 10) \<and>
   gregorian_to_jalali 1600 2 29 = Inr (978, 12, 10) \<and>
   gregorian_to_jalali 1600 3 1 = Inr (978, 12, 11) \<and>
   jalali_to_gregorian 978 12 11 = (1600, 3, 1)"
proof -
  have "valid_gregorian 1600 2 29" "valid_gregorian 1600 3 1"
    by (simp_all add: valid_gregorian_def days_in_month_def is_leap_def)
  moreover have "gregorian_to_jalali_views 1600 2 29 = Inr (978, 12, 10)"
    "gregorian_to_jalali_views 1600 3 1 = Inr (978, 12, 10)"
    by (simp_all add: gregorian_to_jalali_views_def py_index_def g_d_m_def jalali_of_days_def
        Let_def)
  moreover have "gregorian_to_jalali 1600 2 29 = Inr (978, 12, 10)"
    "gregorian_to_jalali 1600 3 1 = Inr (978, 12, 11)"
    by (simp_all add: gregorian_to_jalali_def py_index_def g_d_m_def jalali_of_days_def Let_def)
  moreover have "jalali_to_gregorian 978 12 11 = (1600, 3, 1)"
    by (simp add: jalali_to_gregorian_def jalali_day_number_def gregorian_of_days_def
        gregorian_year_day_def month_loop.simps Let_def)
  ultimately show ?thesis by simp
qed

section \<open>Date parsing\<close>

lemma days_in_month_le: "days_in_month y m \<le> 31"
  by (simp add: days_in_month_def)

lemma py_date_accepted: "date_accepted (y, m, d) \<Longrightarrow> py_date y m d = Inr (y, m, d)"
  using days_in_month_le [of y m]
  by (auto simp: date_accepted_def valid_gregorian_def py_date_def c_int_def)

lemma py_date_rejected: "\<not> date_accepted (y, m, d) \<Longrightarrow> \<exists>e. py_date y m d = Inl e"
  by (auto simp: date_accepted_def valid_gregorian_def py_date_def)

lemma date_parts_empty: "py_strip (persian_to_ascii v) = [] \<Longrightarrow> date_parts v = []"
  by (simp add: date_parts_def py_replace_def)

lemma parse_birth_date_parts:
  "py_strip (persian_to_ascii v) \<noteq> [] \<Longrightarrow>
   parse_birth_date int_of v =
     (if length (date_parts v) \<noteq> 3 then Inl ValueError
      else (case map int_of (date_parts v) of
              [Some year, Some month, Some day] \<Rightarrow>
                if year \<ge> 1700 then map_sum id Some (py_date year month day)
                else (case jalali_to_gregorian year month day of
                        (gy, gm, gd) \<Rightarrow> map_sum id Some (py_date gy gm gd))
            | _ \<Rightarrow> Inl ValueError))"
  by (simp add: parse_birth_date_def date_parts_def Let_def)

text \<open>The strings \<open>1700/01/01\<close>, \<open>1699/01/01\<close> and \<open>1402/12/30\<close> and their pieces.\<close>

lemma ascii_examples:
  "ascii ''1700/01/01'' = [49, 55, 48, 48, 47, 48, 49, 47, 48, 49]"
  "ascii ''1699/01/01'' = [49, 54, 57, 57, 47, 48, 49, 47, 48, 49]"
  "ascii ''1402/12/30'' = [49, 52, 48, 50, 47, 49, 50, 47, 51, 48]"
  "ascii ''1402/12'' = [49, 52, 48, 50, 47, 49, 50]"
  by (simp_all add: ascii_def)

lemma date_parts_examples:
  "date_parts [49, 55, 48, 48, 47, 48, 49, 47, 48, 49] = [[49, 55, 48, 48], [48, 49], [48, 49]]"
  "date_parts [49, 54, 57, 57, 47, 48, 49, 47, 48, 49] = [[49, 54, 57, 57], [48, 49], [48, 49]]"
  "date_parts [49, 52, 48, 50, 47, 49, 50, 47, 51, 48] = [[49, 52, 48, 50], [49, 50], [51, 48]]"
  "date_parts [49, 52, 48, 50, 47, 49, 50] = [[49, 52, 48, 50], [49, 50]]"
  by (simp_all add: date_parts_def py_strip_def py_isspace_def persian_to_ascii_def py_replace_def)

lemma strip_examples:
  "py_strip (persian_to_ascii [49, 52, 48, 50, 47, 49, 50, 47, 51, 48]) \<noteq> []"
  "py_strip (persian_to_ascii [49, 52, 48, 50, 47, 49, 50]) \<noteq> []"
  by (simp_all add: py_strip_def py_isspace_def persian_to_ascii_def)

lemma py_int_ascii_examples:
  "py_int_ascii [49, 55, 48, 48] = Some 1700"
  "py_int_ascii [49, 54, 57, 57] = Some 1699"
  "py_int_ascii [49, 52, 48, 50] = Some 1402"
  "py_int_ascii [48, 49] = Some 1"
  "py_int_ascii [49, 50] = Some 12"
  "py_int_ascii [51, 48] = Some 30"
  by (simp_all add: py_int_ascii_def py_strip_def py_isspace_def)

lemma jalali_to_gregorian_examples:
  "jalali_to_gregorian 1699 1 1 = (2320, 3, 21)"
  "jalali_to_gregorian 1402 12 30 = (2024, 3, 20)"
  "jalali_to_gregorian 978 12 11 = (1600, 3, 1)"
  by (simp_all add: jalali_to_gregorian_def jalali_day_number_def gregorian_of_days_def
      gregorian_year_day_def month_loop.simps Let_def)

text \<open>
  C8: when the text splits into three numeric components, a year of 1700 or more is
  passed to the date constructor as it is, with its month and day, and a year of 1699
  or less is converted from the Jalali calendar first.
\<close>

theorem parse_birth_date_year_heuristic:
  assumes "date_parts v = [py, pm, pd]"
    and "int_of py = Some y" and "int_of pm = Some m" and "int_of pd = Some d"
  shows "(1700 \<le> y \<longrightarrow> parse_birth_date int_of v = map_sum id Some (py_date y m d)) \<and>
         (y \<le> 1699 \<longrightarrow> parse_birth_date int_of v =
            (case jalali_to_gregorian y m d of
               (gy, gm, gd) \<Rightarrow> map_sum id Some (py_date gy gm gd)))"
proof -
  have "py_strip (persian_to_ascii v) \<noteq> []"
    using assms(1) date_parts_empty [of v] by auto
  then show ?thesis
    using assms by (simp add: parse_birth_date_parts)
qed

text \<open>
  The year 1700 is returned unconverted, the year 1699 is converted (1 Farvardin 1699 is
  21 March 2320).
\<close>

theorem parse_birth_date_year_heuristic_witness:
  "parse_birth_date py_int_ascii (ascii ''1700/01/01'') = Inr (Some (1700, 1, 1)) \<and>
   parse_birth_date py_int_ascii (ascii ''1699/01/01'') = Inr (Some (2320, 3, 21))"
proof -
  have "parse_birth_date py_int_ascii [49, 55, 48, 48, 47, 48, 49, 47, 48, 49]
          = map_sum id Some (py_date 1700 1 1)"
    using parse_birth_date_year_heuristic
      [OF date_parts_examples(1) py_int_ascii_examples(1) py_int_ascii_examples(4)
          py_int_ascii_examples(4)]
    by simp
  moreover have "parse_birth_date py_int_ascii [49, 54, 57, 57, 47, 48, 49, 47, 48, 49]
      = (case jalali_to_gregorian 1699 1 1 of
           (gy, gm, gd) \<Rightarrow> map_sum id Some (py_date gy gm gd))"
    using parse_birth_date_year_heuristic
      [OF date_parts_examples(2) py_int_ascii_examples(2) py_int_ascii_examples(4)
          py_int_ascii_examples(4)]
    by simp
  ultimately show ?thesis
    by (simp add: ascii_examples jalali_to_gregorian_examples py_date_def c_int_def
        days_in_month_def)
qed

text \<open>
  C3, as the spec states it, fails: 30 Esfand 1402 does not exist (1402 is a common year
  of the Jalali calendar, its twelfth month has 29 days), and the parser accepts it and
  returns 20 March 2024, the day after 29 Esfand 1402.
\<close>

theorem parse_accepts_invalid_local_date:
  "\<not> valid_jalali 1402 12 30 \<and>
   parse_birth_date py_int_ascii (ascii ''1402/12/30'') = Inr (Some (2024, 3, 20))"
proof -
  have "\<not> valid_jalali 1402 12 30"
    by (simp add: valid_jalali_def jalali_days_in_month_def jalali_leap_def)
  moreover have "parse_birth_date py_int_ascii [49, 52, 48, 50, 47, 49, 50, 47, 51, 48]
                   = Inr (Some (2024, 3, 20))"
    using strip_examples(1)
    by (simp add: parse_birth_date_parts date_parts_examples py_int_ascii_examples
        jalali_to_gregorian_examples py_date_def c_int_def days_in_month_def is_leap_def)
  ultimately show ?thesis
    by (simp add: ascii_examples)
qed

text \<open>
  C3, amended: the parser fails exactly when the normalised, stripped text is not empty
  and either it does not split into exactly three non-empty pieces at \<open>/\<close>, \<open>-\<close> and
  \<open>.\<close>, or \<open>int\<close> rejects a piece, or the date constructor rejects the resulting
  Gregorian date. For a year of 1700 or more that is the date of the three numbers
  themselves, which must be a valid date of a year from 1 to 9999. For a smaller year it
  is the converted date, which is rejected only for its year, below 1 or above 9999:
  the Jalali month and day are not checked, and whatever they are, the converted month
  and day are valid.
\<close>

theorem parse_birth_date_fails_iff:
  "(\<exists>e. parse_birth_date int_of v = Inl e) \<longleftrightarrow>
     py_strip (persian_to_ascii v) \<noteq> [] \<and>
     (length (date_parts v) \<noteq> 3 \<or> (\<exists>p \<in> set (date_parts v). int_of p = None) \<or>
      (\<exists>y m d. map int_of (date_parts v) = [Some y, Some m, Some d] \<and>
         (if 1700 \<le> y then \<not> date_accepted (y, m, d)
          else fst (jalali_to_gregorian y m d) < 1 \<or> 9999 < fst (jalali_to_gregorian y m d))))"
proof (cases "py_strip (persian_to_ascii v) = []")
  case True
  then show ?thesis by (simp add: parse_birth_date_def)
next
  case False
  show ?thesis
  proof (cases "length (date_parts v) = 3")
    case ne: False
    with False show ?thesis by (simp add: parse_birth_date_parts)
  next
    case True
    then obtain p1 p2 p3 where ps: "date_parts v = [p1, p2, p3]"
      by (auto simp: length_Suc_conv numeral_3_eq_3)
    show ?thesis
    proof (cases "\<exists>p \<in> set (date_parts v). int_of p = None")
      case True
      with False ps show ?thesis
        by (auto simp: parse_birth_date_parts split: option.splits)
    next
      case noneF: False
      then obtain y m d where i: "int_of p1 = Some y" "int_of p2 = Some m" "int_of p3 = Some d"
        using ps by auto
      obtain gy gm gd where j: "jalali_to_gregorian y m d = (gy, gm, gd)"
        by (cases "jalali_to_gregorian y m d") auto
      have fail: "(\<exists>e. map_sum id Some (py_date a b c) = Inl e) \<longleftrightarrow> \<not> date_accepted (a, b, c)"
        for a b c
        using py_date_accepted [of a b c] py_date_rejected [of a b c]
        by (cases "date_accepted (a, b, c)") auto
      show ?thesis
      proof (cases "1700 \<le> y")
        case True
        with False ps i fail [of y m d] show ?thesis
          by (simp add: parse_birth_date_parts)
      next
        case old: False
        have "valid_gregorian gy gm gd"
          using gregorian_of_days_props [of "jalali_day_number y m d" gy gm gd] j
          by (simp add: jalali_to_gregorian_def)
        then have "date_accepted (gy, gm, gd) \<longleftrightarrow> \<not> (gy < 1 \<or> 9999 < gy)"
          by (auto simp: date_accepted_def)
        with old False ps i j fail [of gy gm gd] show ?thesis
          by (simp add: parse_birth_date_parts)
      qed
    qed
  qed
qed

text \<open>The text \<open>1402/12\<close> has two pieces only, and is rejected.\<close>

theorem parse_birth_date_fails_iff_witness:
  "\<exists>e. parse_birth_date py_int_ascii (ascii ''1402/12'') = Inl e"
  using parse_birth_date_fails_iff [of py_int_ascii "ascii ''1402/12''"]
  by (simp add: ascii_examples date_parts_examples strip_examples)

section \<open>Progression\<close>

lemma passed_all_iff:
  assumes ds: "distinct (map subject_id subjects)"
    and dr: "distinct (map (\<lambda>r. (score_student r, score_subject r)) (score_table d))"
  shows "passed_all d st subjects \<longleftrightarrow>
           subjects \<noteq> [] \<and> (\<forall>subj \<in> set subjects. passing d st subj)"
proof -
  define ids where "ids = subject_id ` set subjects"
  define Q where "Q = filter (\<lambda>r. score_student r = student_id st \<and> score_subject r \<in> ids)
                        (score_table d)"
  have key_inj: "inj_on (\<lambda>r. (score_student r, score_subject r)) (set (score_table d))"
    using dr by (simp add: distinct_map)
  have Q_sub: "set Q \<subseteq> set (score_table d)"
    by (auto simp: Q_def)
  have subj_inj: "inj_on score_subject (set Q)"
  proof (rule inj_onI)
    fix r r' assume "r \<in> set Q" "r' \<in> set Q" "score_subject r = score_subject r'"
    then have "(score_student r, score_subject r) = (score_student r', score_subject r')"
      and "r \<in> set (score_table d)" and "r' \<in> set (score_table d)"
      by (auto simp: Q_def)
    with inj_onD [OF key_inj, of r r'] show "r = r'" by simp
  qed
  have "distinct Q"
    using dr by (simp add: Q_def distinct_map)
  with subj_inj have "distinct (map score_subject Q)"
    by (simp add: distinct_map)
  then have lenQ: "length Q = card (score_subject ` set Q)"
    using distinct_card [of "map score_subject Q"] by simp
  have len_ids: "length subjects = card ids"
    using distinct_card [OF ds] by (simp add: ids_def)
  have img_sub: "score_subject ` set Q \<subseteq> ids"
    by (auto simp: Q_def)
  have fin: "finite ids" by (simp add: ids_def)
  have count: "\<not> length Q < length subjects \<longleftrightarrow> score_subject ` set Q = ids"
  proof
    assume "\<not> length Q < length subjects"
    then have "card ids \<le> card (score_subject ` set Q)"
      by (simp add: lenQ len_ids)
    with img_sub fin show "score_subject ` set Q = ids"
      by (simp add: card_seteq)
  next
    assume "score_subject ` set Q = ids"
    then show "\<not> length Q < length subjects"
      by (simp add: lenQ len_ids)
  qed
  have sorted_nil: "sort_key subject_id subjects = [] \<longleftrightarrow> subjects = []"
    using length_sort [of subject_id subjects] by (metis length_0_conv)
  have scores: "(\<not> (\<exists>r \<in> set Q. score r = None) \<and>
                 \<not> (\<exists>r \<in> set Q. case score r of Some v \<Rightarrow> v < 50 | None \<Rightarrow> False)) \<longleftrightarrow>
                (\<forall>r \<in> set Q. \<exists>v. score r = Some v \<and> 50 \<le> v)"
    by (auto split: option.splits) (metis not_less option.exhaust option.simps(5))
  have "passed_all d st subjects \<longleftrightarrow>
      subjects \<noteq> [] \<and> \<not> length Q < length subjects \<and>
      \<not> (\<exists>r \<in> set Q. score r = None) \<and>
      \<not> (\<exists>r \<in> set Q. case score r of Some v \<Rightarrow> v < 50 | None \<Rightarrow> False)"
    unfolding passed_all_def Let_def Q_def ids_def
    by (simp add: sorted_nil) blast
  with scores have unfold: "passed_all d st subjects \<longleftrightarrow>
      subjects \<noteq> [] \<and> \<not> length Q < length subjects \<and>
      (\<forall>r \<in> set Q. \<exists>v. score r = Some v \<and> 50 \<le> v)"
    by blast
  have "(\<forall>subj \<in> set subjects. passing d st subj) \<longleftrightarrow>
        score_subject ` set Q = ids \<and> (\<forall>r \<in> set Q. \<exists>v. score r = Some v \<and> 50 \<le> v)"
  proof (intro iffI conjI ballI)
    assume all: "\<forall>subj \<in> set subjects. passing d st subj"
    show "score_subject ` set Q = ids"
    proof (rule equalityI [OF img_sub], rule subsetI)
      fix i assume "i \<in> ids"
      then obtain subj where "subj \<in> set subjects" "i = subject_id subj"
        by (auto simp: ids_def)
      with all obtain r where "r \<in> set (score_table d)" "score_student r = student_id st"
        "score_subject r = i"
        by (auto simp: passing_def)
      with \<open>i \<in> ids\<close> have "r \<in> set Q" by (simp add: Q_def)
      with \<open>score_subject r = i\<close> show "i \<in> score_subject ` set Q" by auto
    qed
  next
    fix r assume all: "\<forall>subj \<in> set subjects. passing d st subj" and rQ: "r \<in> set Q"
    then obtain subj where s: "subj \<in> set subjects" "score_subject r = subject_id subj"
      and rs: "score_student r = student_id st" "r \<in> set (score_table d)"
      by (auto simp: Q_def ids_def)
    from all s obtain r' where r': "r' \<in> set (score_table d)"
      "score_student r' = student_id st" "score_subject r' = subject_id subj"
      "case score r' of Some v \<Rightarrow> 50 \<le> v | None \<Rightarrow> False"
      by (auto simp: passing_def)
    have "r' = r"
      using inj_onD [OF key_inj, of r' r] r' rs s by simp
    with r' show "\<exists>v. score r = Some v \<and> 50 \<le> v"
      by (auto split: option.splits)
  next
    fix subj
    assume h: "score_subject ` set Q = ids \<and> (\<forall>r \<in> set Q. \<exists>v. score r = Some v \<and> 50 \<le> v)"
      and s: "subj \<in> set subjects"
    then have "subject_id subj \<in> score_subject ` set Q"
      by (auto simp: ids_def)
    then obtain r where r: "r \<in> set Q" "score_subject r = subject_id subj" by auto
    with h obtain v where "score r = Some v" "50 \<le> v" by blast
    with r show "passing d st subj"
      unfolding passing_def Q_def by (intro bexI [of _ r]) auto
  qed
  with unfold count show ?thesis by blast
qed

lemma ensure_tables [simp]:
  "subject_table (ensure_reference_data d) = subject_table d"
  "score_table (ensure_reference_data d) = score_table d"
  by (simp_all add: ensure_reference_data_def)

lemma ensure_queries [simp]:
  "semester_subjects (ensure_reference_data d) l n = semester_subjects d l n"
  "period_subjects (ensure_reference_data d) l n = period_subjects d l n"
  "passed_all (ensure_reference_data d) st subs = passed_all d st subs"
  by (simp_all add: semester_subjects_def period_subjects_def passed_all_def)

lemma distinct_queries:
  assumes "wf_db d"
  shows "distinct (map subject_id (semester_subjects d l n))"
    and "distinct (map subject_id (period_subjects d l n))"
  using assms
  by (simp_all add: wf_db_def semester_subjects_def period_subjects_def distinct_map_filter)

lemma passed_all_semester:
  "wf_db d \<Longrightarrow> passed_all d st (semester_subjects d l n) \<longleftrightarrow>
     semester_subjects d l n \<noteq> [] \<and> (\<forall>subj \<in> set (semester_subjects d l n). passing d st subj)"
  by (rule passed_all_iff) (simp_all add: distinct_queries, simp add: wf_db_def)

lemma passed_all_period:
  "wf_db d \<Longrightarrow> passed_all d st (period_subjects d l n) \<longleftrightarrow>
     period_subjects d l n \<noteq> [] \<and> (\<forall>subj \<in> set (period_subjects d l n). passing d st subj)"
  by (rule passed_all_iff) (simp_all add: distinct_queries, simp add: wf_db_def)

lemma resolved_cases:
  assumes "resolved_subjects d st \<noteq> []"
  obtains (upper) n where "effective_level st = Some ''aali''" "latest_semester_of st = Some n"
      "resolved_subjects d st = semester_subjects d (Some ''aali'') n"
    | (lower) l n where "effective_level st = Some l" "l = ''moteseta'' \<or> l = ''ebtedai''"
      "latest_period_of st = Some n" "resolved_subjects d st = period_subjects d (Some l) n"
  using assms
  by (auto simp: resolved_subjects_def split: option.splits if_splits)

lemma not_passing_iff:
  assumes "wf_db d"
  shows "\<not> passing d st subj \<longleftrightarrow> lacks_score d st subj \<or> failing d st subj"
proof
  assume np: "\<not> passing d st subj"
  show "lacks_score d st subj \<or> failing d st subj"
  proof (cases "lacks_score d st subj")
    case False
    then obtain r v where "r \<in> set (score_table d)" "score_student r = student_id st"
      "score_subject r = subject_id subj" "score r = Some v"
      by (auto simp: lacks_score_def)
    with np have "failing d st subj"
      unfolding passing_def failing_def by (intro bexI [of _ r]) (auto simp: not_le)
    then show ?thesis ..
  qed simp
next
  have key_inj: "inj_on (\<lambda>r. (score_student r, score_subject r)) (set (score_table d))"
    using assms by (simp add: wf_db_def distinct_map)
  assume "lacks_score d st subj \<or> failing d st subj"
  then show "\<not> passing d st subj"
  proof
    assume "lacks_score d st subj"
    then show ?thesis
      by (auto simp: lacks_score_def passing_def split: option.splits)
  next
    assume "failing d st subj"
    then obtain r v where r: "r \<in> set (score_table d)" "score_student r = student_id st"
      "score_subject r = subject_id subj" "score r = Some v" "v < 50"
      by (auto simp: failing_def split: option.splits)
    show ?thesis
    proof
      assume "passing d st subj"
      then obtain r' v' where r': "r' \<in> set (score_table d)" "score_student r' = student_id st"
        "score_subject r' = subject_id subj" "score r' = Some v'" "50 \<le> v'"
        by (auto simp: passing_def split: option.splits)
      have "r' = r"
        using inj_onD [OF key_inj, of r' r] r r' by simp
      with r r' show False by simp
    qed
  qed
qed

lemma example_facts:
  "wf_db example_db"
  "\<not> is_graduated learner"
  "level_obj_of learner = None"
  "latest_semester_of learner = None"
  "latest_period_of learner = None"
  by (simp_all add: wf_db_def example_db_def learner_def level_obj_of_def latest_semester_of_def
      latest_period_of_def latest_def)

text \<open>
  C1, as stated, fails: the source has no check of the marker's unit against the level
  and raises nothing. An upper-level learner whose only marker is Period 3 is evaluated
  to the normal result "no message", unchanged.
\<close>

theorem upper_level_period_marker_returns:
  "effective_level (learner\<lparr>level := Some ''aali'', periods := [3]\<rparr>) = Some ''aali'' \<and>
   auto_promote_student example_db (learner\<lparr>level := Some ''aali'', periods := [3]\<rparr>) =
     Inr (None, ensure_reference_data example_db,
          learner\<lparr>level := Some ''aali'', periods := [3]\<rparr>)"
  by (simp add: auto_promote_student_def effective_level_def level_obj_of_def
      latest_semester_of_def latest_def learner_def Let_def)

text \<open>
  C1, amended: the evaluation of an upper-level learner never raises; where the learner
  has no semester marker, of its own or of its class (so that any marker it has is a
  period), the evaluation returns no message and leaves the learner as it is.
\<close>

theorem upper_level_never_raises:
  assumes "effective_level st = Some ''aali''"
  shows "(\<exists>r. auto_promote_student d st = Inr r) \<and>
         (latest_semester_of st = None \<longrightarrow>
            auto_promote_student d st =
              Inr (None, if is_graduated st then d else ensure_reference_data d, st))"
  using assms
  by (auto simp: auto_promote_student_def Let_def split: option.splits)

text \<open>
  An upper-level learner whose only marker is Period 6 gets no message and stays as it is.
\<close>

theorem upper_level_never_raises_witness:
  "auto_promote_student example_db (learner\<lparr>level := Some ''aali'', periods := [6]\<rparr>) =
     Inr (None, ensure_reference_data example_db,
          learner\<lparr>level := Some ''aali'', periods := [6]\<rparr>)"
proof -
  have "effective_level (learner\<lparr>level := Some ''aali'', periods := [6]\<rparr>) = Some ''aali''"
    by (simp add: effective_level_def level_obj_of_def)
  moreover have "latest_semester_of (learner\<lparr>level := Some ''aali'', periods := [6]\<rparr>) = None"
    by (simp add: latest_semester_of_def latest_def learner_def)
  ultimately show ?thesis
    using upper_level_never_raises
      [of "learner\<lparr>level := Some ''aali'', periods := [6]\<rparr>" example_db]
    by (simp add: learner_def)
qed

text \<open>
  C2, as stated, fails: a learner with no level and no class, holding Semester 1, is
  taken for an upper-level learner, evaluated and promoted to Semester 2.
\<close>

theorem no_level_semester_marker_promoted:
  "level_obj_of (learner\<lparr>semesters := [1]\<rparr>) = None \<and>
   auto_promote_student example_db (learner\<lparr>semesters := [1]\<rparr>) =
     Inr (Some (PromotedSemester 2),
          (ensure_reference_data example_db)\<lparr>semester_table := [1, 2, 3, 4]\<rparr>,
          learner\<lparr>semesters := [2]\<rparr>)"
  by (simp add: auto_promote_student_def effective_level_def level_obj_of_def
      latest_semester_of_def latest_period_of_def latest_def learner_def Let_def
      level_map_def semester_subjects_def passed_all_def example_db_def
      ensure_reference_data_def get_or_create_def)

text \<open>
  C2, amended: a learner with no level of its own and none from its class is evaluated
  at the level its markers give. With a semester marker and no period marker (own or of
  the class) the result is that of the same learner at the upper level \<open>aali\<close>; with a
  period marker it is that of the same learner at the middle level \<open>moteseta\<close>; in both
  cases the learner's own level stays unset. With no semester and no period marker the
  evaluation returns no message and changes nothing.
\<close>

theorem no_level_evaluation:
  assumes "level_obj_of st = None"
  shows "(latest_semester_of st \<noteq> None \<and> latest_period_of st = None \<longrightarrow>
            auto_promote_student d st =
              map_sum id (\<lambda>(m, d', st'). (m, d', st'\<lparr>level := None\<rparr>))
                (auto_promote_student d (st\<lparr>level := Some ''aali''\<rparr>))) \<and>
         (latest_period_of st \<noteq> None \<longrightarrow>
            auto_promote_student d st =
              map_sum id (\<lambda>(m, d', st'). (m, d', st'\<lparr>level := None\<rparr>))
                (auto_promote_student d (st\<lparr>level := Some ''moteseta''\<rparr>))) \<and>
         (latest_semester_of st = None \<and> latest_period_of st = None \<longrightarrow>
            auto_promote_student d st =
              Inr (None, if is_graduated st then d else ensure_reference_data d, st))"
proof -
  have l: "level st = None"
    using assms by (simp add: level_obj_of_def split: option.splits)
  have e: "effective_level (st\<lparr>level := Some x\<rparr>) = Some x" for x
    by (simp add: effective_level_def level_obj_of_def)
  have p: "passed_all d' (st\<lparr>level := x\<rparr>) subs = passed_all d' st subs" for d' x subs
    by (simp add: passed_all_def)
  have m: "latest_semester_of (st\<lparr>level := x\<rparr>) = latest_semester_of st"
    "latest_period_of (st\<lparr>level := x\<rparr>) = latest_period_of st" for x
    by (simp_all add: latest_semester_of_def latest_period_of_def split: option.splits)
  have a: "auto_promote_student d st =
              map_sum id (\<lambda>(m, d', st'). (m, d', st'\<lparr>level := None\<rparr>))
                (auto_promote_student d (st\<lparr>level := Some ''aali''\<rparr>))"
    if "latest_semester_of st \<noteq> None" "latest_period_of st = None"
  proof -
    have "effective_level st = Some ''aali''"
      using assms that by (simp add: effective_level_def level_map_def)
    with l show ?thesis
      by (simp add: auto_promote_student_def Let_def e p m split: option.splits)
  qed
  have b: "auto_promote_student d st =
              map_sum id (\<lambda>(m, d', st'). (m, d', st'\<lparr>level := None\<rparr>))
                (auto_promote_student d (st\<lparr>level := Some ''moteseta''\<rparr>))"
    if "latest_period_of st \<noteq> None"
  proof -
    have "effective_level st = Some ''moteseta''"
      using assms that by (simp add: effective_level_def level_map_def)
    with l show ?thesis
      by (simp add: auto_promote_student_def Let_def e p m split: option.splits)
  qed
  have c: "latest_semester_of st = None \<and> latest_period_of st = None \<longrightarrow>
            auto_promote_student d st =
              Inr (None, if is_graduated st then d else ensure_reference_data d, st)"
    using assms by (simp add: auto_promote_student_def effective_level_def Let_def)
  from a b c show ?thesis by blast
qed

text \<open>
  Three learners with no level and no class. The one holding Period 2 is evaluated at
  the middle level, has 70 in the one subject of that level and period, and moves to
  Period 3. The one holding Semester 4 is evaluated at the upper level, has 49 in the one
  subject of that level and semester, and is held. The one with no marker gets no
  message and stays as it is.
\<close>

theorem no_level_evaluation_witness:
  "level_obj_of (learner\<lparr>periods := [2]\<rparr>) = None \<and>
   latest_period_of (learner\<lparr>periods := [2]\<rparr>) = Some 2 \<and>
   auto_promote_student example_db (learner\<lparr>periods := [2]\<rparr>) =
     Inr (Some (PromotedPeriod 3),
          (ensure_reference_data example_db)\<lparr>period_table := [1, 2, 3, 4, 5, 6]\<rparr>,
          learner\<lparr>periods := [3]\<rparr>) \<and>
   level_obj_of (learner\<lparr>semesters := [4]\<rparr>) = None \<and>
   latest_semester_of (learner\<lparr>semesters := [4]\<rparr>) = Some 4 \<and>
   latest_period_of (learner\<lparr>semesters := [4]\<rparr>) = None \<and>
   auto_promote_student example_db (learner\<lparr>semesters := [4]\<rparr>) =
     Inr (None, ensure_reference_data example_db, learner\<lparr>semesters := [4]\<rparr>) \<and>
   auto_promote_student example_db learner =
     Inr (None, ensure_reference_data example_db, learner)"
proof -
  let ?p = "learner\<lparr>periods := [2]\<rparr>" and ?s = "learner\<lparr>semesters := [4]\<rparr>"
  have p: "level_obj_of ?p = None" "latest_period_of ?p = Some 2"
    by (simp_all add: level_obj_of_def latest_period_of_def latest_def learner_def)
  have s: "level_obj_of ?s = None" "latest_semester_of ?s = Some 4" "latest_period_of ?s = None"
    by (simp_all add: level_obj_of_def latest_semester_of_def latest_period_of_def latest_def
        learner_def)
  have "auto_promote_student example_db (?p\<lparr>level := Some ''moteseta''\<rparr>) =
     Inr (Some (PromotedPeriod 3),
          (ensure_reference_data example_db)\<lparr>period_table := [1, 2, 3, 4, 5, 6]\<rparr>,
          learner\<lparr>level := Some ''moteseta'', periods := [3]\<rparr>)"
    by (simp add: auto_promote_student_def effective_level_def level_obj_of_def
        latest_semester_of_def latest_period_of_def latest_def learner_def Let_def
        period_subjects_def passed_all_def example_db_def
        ensure_reference_data_def get_or_create_def)
  with no_level_evaluation [OF p(1), of example_db] p(2)
  have 1: "auto_promote_student example_db ?p =
     Inr (Some (PromotedPeriod 3),
          (ensure_reference_data example_db)\<lparr>period_table := [1, 2, 3, 4, 5, 6]\<rparr>,
          learner\<lparr>periods := [3]\<rparr>)"
    by (simp add: learner_def)
  have "auto_promote_student example_db (?s\<lparr>level := Some ''aali''\<rparr>) =
     Inr (None, ensure_reference_data example_db,
          learner\<lparr>level := Some ''aali'', semesters := [4]\<rparr>)"
    by (simp add: auto_promote_student_def effective_level_def level_obj_of_def
        latest_semester_of_def latest_period_of_def latest_def learner_def Let_def
        semester_subjects_def passed_all_def example_db_def
        ensure_reference_data_def get_or_create_def)
  with no_level_evaluation [OF s(1), of example_db] s(2,3)
  have 2: "auto_promote_student example_db ?s =
     Inr (None, ensure_reference_data example_db, ?s)"
    by (simp add: learner_def)
  have 3: "auto_promote_student example_db learner =
     Inr (None, ensure_reference_data example_db, learner)"
    using no_level_evaluation [OF example_facts(3), of example_db]
    by (simp add: example_facts)
  from p s 1 2 3 show ?thesis by simp
qed

text \<open>
  C4: in a database with one score row for a learner and a subject, for a learner with
  at least one subject resolved for its level and marker: if the learner is not yet
  graduated, the evaluation returns no message and leaves the learner as it is exactly
  when some resolved subject has no score or has a score below 50; so a score of 49
  holds the learner, and with 50 and more in every resolved subject the learner is not
  held. A learner that is graduated already is left as it is in any case.
\<close>

theorem held_iff_not_all_passed:
  assumes "wf_db d" and "resolved_subjects d st \<noteq> []"
  shows "(is_graduated st \<longrightarrow> auto_promote_student d st = Inr (None, d, st)) \<and>
         (\<not> is_graduated st \<longrightarrow>
            (auto_promote_student d st = Inr (None, ensure_reference_data d, st) \<longleftrightarrow>
               (\<exists>subj \<in> set (resolved_subjects d st).
                  lacks_score d st subj \<or> failing d st subj)))"
proof (intro conjI impI)
  assume "is_graduated st"
  then show "auto_promote_student d st = Inr (None, d, st)"
    by (simp add: auto_promote_student_def)
next
  assume g: "\<not> is_graduated st"
  have "auto_promote_student d st = Inr (None, ensure_reference_data d, st) \<longleftrightarrow>
           (\<exists>subj \<in> set (resolved_subjects d st). \<not> passing d st subj)"
    using assms(2)
  proof (cases rule: resolved_cases)
    case (upper n)
    with assms g show ?thesis
      by (simp add: auto_promote_student_def Let_def passed_all_semester)
  next
    case (lower l n)
    with assms g show ?thesis
      by (auto simp: auto_promote_student_def Let_def passed_all_period)
  qed
  then show "auto_promote_student d st = Inr (None, ensure_reference_data d, st) \<longleftrightarrow>
               (\<exists>subj \<in> set (resolved_subjects d st). lacks_score d st subj \<or> failing d st subj)"
    by (simp add: not_passing_iff [OF assms(1)])
qed

text \<open>
  Learner 7 in Semester 4 of the upper level has 49 in subject 3 and is held; in
  Period 6 of the lower level it has exactly 50 in subject 2 and is not held.
\<close>

theorem held_iff_not_all_passed_witness:
  "auto_promote_student example_db (learner\<lparr>level := Some ''aali'', semesters := [4]\<rparr>) =
     Inr (None, ensure_reference_data example_db,
          learner\<lparr>level := Some ''aali'', semesters := [4]\<rparr>) \<and>
   auto_promote_student example_db (learner\<lparr>level := Some ''ebtedai'', periods := [6]\<rparr>) \<noteq>
     Inr (None, ensure_reference_data example_db,
          learner\<lparr>level := Some ''ebtedai'', periods := [6]\<rparr>)"
proof -
  let ?a = "learner\<lparr>level := Some ''aali'', semesters := [4]\<rparr>"
  let ?b = "learner\<lparr>level := Some ''ebtedai'', periods := [6]\<rparr>"
  have ra: "resolved_subjects example_db ?a =
              [\<lparr>subject_id = 3, subject_level = Some ''aali'', semester = Some 4, period = None\<rparr>]"
    by (simp add: resolved_subjects_def effective_level_def level_obj_of_def
        latest_semester_of_def latest_def semester_subjects_def example_db_def)
  have rb: "resolved_subjects example_db ?b =
              [\<lparr>subject_id = 2, subject_level = Some ''ebtedai'', semester = None,
                period = Some 6\<rparr>]"
    by (simp add: resolved_subjects_def effective_level_def level_obj_of_def
        latest_period_of_def latest_def period_subjects_def example_db_def)
  have g: "\<not> is_graduated ?a" "\<not> is_graduated ?b"
    by (simp_all add: learner_def)
  have "auto_promote_student example_db ?a = Inr (None, ensure_reference_data example_db, ?a)"
    using held_iff_not_all_passed [of example_db ?a, THEN conjunct2] example_facts(1) g(1)
    by (simp add: ra) (simp add: failing_def example_db_def learner_def)
  moreover have "auto_promote_student example_db ?b \<noteq>
                   Inr (None, ensure_reference_data example_db, ?b)"
    using held_iff_not_all_passed [of example_db ?b, THEN conjunct2] example_facts(1) g(2)
    by (simp add: rb) (simp add: failing_def lacks_score_def example_db_def learner_def)
  ultimately show ?thesis by simp
qed

text \<open>
  C5: a learner that is not yet graduated, at or beyond the last term of its level
  (Semester 4 of the upper level, Period 6 of the middle and the lower level), with a
  score of 50 or more in every resolved subject, of which there is at least one, is
  graduated: the message is "graduated", the flag is set, the markers stay.
\<close>

theorem graduated_at_ceiling:
  assumes "wf_db d" and "\<not> is_graduated st" and "resolved_subjects d st \<noteq> []"
    and "\<forall>subj \<in> set (resolved_subjects d st). passing d st subj"
    and "effective_level st = Some l"
    and "(l = ''aali'' \<and> latest_semester_of st = Some n \<and> 4 \<le> n) \<or>
         ((l = ''moteseta'' \<or> l = ''ebtedai'') \<and> latest_period_of st = Some n \<and> 6 \<le> n)"
  shows "auto_promote_student d st =
           Inr (Some Graduated, ensure_reference_data d, st\<lparr>is_graduated := True\<rparr>)"
  using assms(3)
proof (cases rule: resolved_cases)
  case (upper n)
  with assms show ?thesis
    by (auto simp: auto_promote_student_def Let_def passed_all_semester)
next
  case (lower l' n)
  with assms show ?thesis
    by (auto simp: auto_promote_student_def Let_def passed_all_period)
qed

text \<open>
  Learner 7 at the lower level, with Periods 3 and 6 and a score of exactly 50 in the one
  subject of Period 6, is graduated.
\<close>

theorem graduated_at_ceiling_witness:
  "auto_promote_student example_db (learner\<lparr>level := Some ''ebtedai'', periods := [3, 6]\<rparr>) =
     Inr (Some Graduated, ensure_reference_data example_db,
          learner\<lparr>level := Some ''ebtedai'', periods := [3, 6], is_graduated := True\<rparr>)"
proof -
  let ?b = "learner\<lparr>level := Some ''ebtedai'', periods := [3, 6]\<rparr>"
  have e: "effective_level ?b = Some ''ebtedai''"
    by (simp add: effective_level_def level_obj_of_def)
  have p: "latest_period_of ?b = Some 6"
    by (simp add: latest_period_of_def latest_def)
  have r: "resolved_subjects example_db ?b =
              [\<lparr>subject_id = 2, subject_level = Some ''ebtedai'', semester = None,
                period = Some 6\<rparr>]"
    by (simp add: resolved_subjects_def e p period_subjects_def example_db_def)
  have "\<forall>subj \<in> set (resolved_subjects example_db ?b). passing example_db ?b subj"
    by (simp add: r) (simp add: passing_def example_db_def learner_def)
  then show ?thesis
    using graduated_at_ceiling [of example_db ?b "''ebtedai''" 6] example_facts(1) e p
    by (simp add: r) (simp add: learner_def)
qed

text \<open>
  C6: a learner that is not yet graduated, below the last term of its level, with a
  score of 50 or more in every resolved subject, of which there is at least one, is
  advanced by one: the message names the next number, the row of the next semester
  (period) is created unless it exists, the learner's semesters (periods) are exactly
  the next one, and the flag is not set.
\<close>

theorem advanced_below_ceiling:
  assumes "wf_db d" and "\<not> is_graduated st" and "resolved_subjects d st \<noteq> []"
    and "\<forall>subj \<in> set (resolved_subjects d st). passing d st subj"
    and "effective_level st = Some l"
  shows "(l = ''aali'' \<and> latest_semester_of st = Some n \<and> n < 4 \<longrightarrow>
            auto_promote_student d st =
              Inr (Some (PromotedSemester (n + 1)),
                   (ensure_reference_data d)
                     \<lparr>semester_table :=
                        get_or_create (n + 1) (semester_table (ensure_reference_data d))\<rparr>,
                   st\<lparr>semesters := [n + 1], is_graduated := False\<rparr>) \<and>
            n + 1 \<in> set (get_or_create (n + 1) (semester_table (ensure_reference_data d)))) \<and>
         ((l = ''moteseta'' \<or> l = ''ebtedai'') \<and> latest_period_of st = Some n \<and> n < 6 \<longrightarrow>
            auto_promote_student d st =
              Inr (Some (PromotedPeriod (n + 1)),
                   (ensure_reference_data d)
                     \<lparr>period_table :=
                        get_or_create (n + 1) (period_table (ensure_reference_data d))\<rparr>,
                   st\<lparr>periods := [n + 1], is_graduated := False\<rparr>) \<and>
            n + 1 \<in> set (get_or_create (n + 1) (period_table (ensure_reference_data d))))"
  using assms(3)
proof (cases rule: resolved_cases)
  case (upper m)
  with assms show ?thesis
    by (auto simp: auto_promote_student_def Let_def passed_all_semester get_or_create_def)
next
  case (lower l' m)
  with assms show ?thesis
    by (auto simp: auto_promote_student_def Let_def passed_all_period get_or_create_def)
qed

text \<open>
  Learner 7 goes from Semester 1 of the upper level to Semester 2, and from Period 2 of
  the middle level to Period 3.
\<close>

theorem advanced_below_ceiling_witness:
  "auto_promote_student example_db (learner\<lparr>level := Some ''aali'', semesters := [1]\<rparr>) =
     Inr (Some (PromotedSemester 2),
          (ensure_reference_data example_db)\<lparr>semester_table := [1, 2, 3, 4]\<rparr>,
          learner\<lparr>level := Some ''aali'', semesters := [2]\<rparr>) \<and>
   auto_promote_student example_db (learner\<lparr>level := Some ''moteseta'', periods := [2]\<rparr>) =
     Inr (Some (PromotedPeriod 3),
          (ensure_reference_data example_db)\<lparr>period_table := [1, 2, 3, 4, 5, 6]\<rparr>,
          learner\<lparr>level := Some ''moteseta'', periods := [3]\<rparr>)"
proof -
  let ?a = "learner\<lparr>level := Some ''aali'', semesters := [1]\<rparr>"
  let ?b = "learner\<lparr>level := Some ''moteseta'', periods := [2]\<rparr>"
  have ea: "effective_level ?a = Some ''aali''" and eb: "effective_level ?b = Some ''moteseta''"
    by (simp_all add: effective_level_def level_obj_of_def)
  have la: "latest_semester_of ?a = Some 1" and lb: "latest_period_of ?b = Some 2"
    by (simp_all add: latest_semester_of_def latest_period_of_def latest_def)
  have ra: "resolved_subjects example_db ?a =
              [\<lparr>subject_id = 1, subject_level = None, semester = Some 1, period = None\<rparr>]"
    by (simp add: resolved_subjects_def ea la semester_subjects_def example_db_def)
  have rb: "resolved_subjects example_db ?b =
              [\<lparr>subject_id = 4, subject_level = Some ''moteseta'', semester = None,
                period = Some 2\<rparr>]"
    by (simp add: resolved_subjects_def eb lb period_subjects_def example_db_def)
  have pa: "\<forall>subj \<in> set (resolved_subjects example_db ?a). passing example_db ?a subj"
    by (simp add: ra) (simp add: passing_def example_db_def learner_def)
  have pb: "\<forall>subj \<in> set (resolved_subjects example_db ?b). passing example_db ?b subj"
    by (simp add: rb) (simp add: passing_def example_db_def learner_def)
  have t: "semester_table (ensure_reference_data example_db) = [1, 2, 3, 4]"
    "period_table (ensure_reference_data example_db) = [1, 2, 3, 4, 5, 6]"
    by (simp_all add: ensure_reference_data_def example_db_def get_or_create_def)
  have "auto_promote_student example_db ?a =
     Inr (Some (PromotedSemester 2),
          (ensure_reference_data example_db)\<lparr>semester_table := [1, 2, 3, 4]\<rparr>,
          learner\<lparr>level := Some ''aali'', semesters := [2]\<rparr>)"
    using advanced_below_ceiling [of example_db ?a "''aali''" 1] example_facts(1) pa ea la
    by (simp add: ra t get_or_create_def) (simp add: learner_def)
  moreover have "auto_promote_student example_db ?b =
     Inr (Some (PromotedPeriod 3),
          (ensure_reference_data example_db)\<lparr>period_table := [1, 2, 3, 4, 5, 6]\<rparr>,
          learner\<lparr>level := Some ''moteseta'', periods := [3]\<rparr>)"
    using advanced_below_ceiling [of example_db ?b "''moteseta''" 2] example_facts(1) pb eb lb
    by (simp add: rb t get_or_create_def) (simp add: learner_def)
  ultimately show ?thesis by simp
qed

text \<open>
  C7: for a lower-level learner in Period 6 with a score of 50 or more in every resolved
  subject, of which there is at least one, the crossover succeeds and leaves the learner
  at the middle level, not graduated, with Period 1 as its only period, no semester and
  no class; the row of Period 1 exists afterwards.
\<close>

theorem crossover_result:
  assumes "wf_db d" and "level_obj_of st = Some ''ebtedai''"
    and "latest_period_of st = Some 6"
    and "resolved_subjects d st \<noteq> []"
    and "\<forall>subj \<in> set (resolved_subjects d st). passing d st subj"
  shows "student_promote_to_moteseta d st =
           (Promoted,
            (ensure_reference_data (ensure_reference_data d))
              \<lparr>period_table :=
                 get_or_create 1 (period_table (ensure_reference_data (ensure_reference_data d)))\<rparr>,
            st\<lparr>level := Some ''moteseta'', school_class := None, is_graduated := False,
               periods := [1], semesters := []\<rparr>) \<and>
         1 \<in> set (get_or_create 1 (period_table (ensure_reference_data (ensure_reference_data d))))"
proof -
  have e: "effective_level st = Some ''ebtedai''"
    using assms(2) by (simp add: effective_level_def)
  with assms(3) have r: "resolved_subjects d st = period_subjects d (Some ''ebtedai'') 6"
    by (simp add: resolved_subjects_def)
  with assms have "passed_all d st (period_subjects d (Some ''ebtedai'') 6)"
    by (simp add: passed_all_period)
  with assms(2,3) show ?thesis
    by (simp add: student_promote_to_moteseta_def can_graduate_ebtedai_def Let_def level_map_def
        get_or_create_def)
qed

text \<open>
  Learner 7, graduated at the lower level in Period 6, in a class and with a stray
  semester, after the crossover.
\<close>

theorem crossover_result_witness:
  "student_promote_to_moteseta example_db
     (learner\<lparr>level := Some ''ebtedai'', periods := [3, 6], semesters := [2],
        school_class := Some \<lparr>class_level = Some ''ebtedai'', class_semester = None,
                              class_period = Some 6\<rparr>,
        is_graduated := True\<rparr>) =
     (Promoted,
      (ensure_reference_data example_db)\<lparr>period_table := [1, 2, 3, 4, 5, 6]\<rparr>,
      learner\<lparr>level := Some ''moteseta''\<rparr>\<lparr>periods := [1]\<rparr>)"
proof -
  let ?b = "learner\<lparr>level := Some ''ebtedai'', periods := [3, 6], semesters := [2],
        school_class := Some \<lparr>class_level = Some ''ebtedai'', class_semester = None,
                              class_period = Some 6\<rparr>,
        is_graduated := True\<rparr>"
  have l: "level_obj_of ?b = Some ''ebtedai''"
    by (simp add: level_obj_of_def)
  have p: "latest_period_of ?b = Some 6"
    by (simp add: latest_period_of_def latest_def)
  have r: "resolved_subjects example_db ?b =
              [\<lparr>subject_id = 2, subject_level = Some ''ebtedai'', semester = None,
                period = Some 6\<rparr>]"
    by (simp add: resolved_subjects_def effective_level_def l p period_subjects_def
        example_db_def)
  have ps: "\<forall>subj \<in> set (resolved_subjects example_db ?b). passing example_db ?b subj"
    by (simp add: r) (simp add: passing_def example_db_def learner_def)
  have t: "ensure_reference_data (ensure_reference_data example_db) =
             ensure_reference_data example_db"
    "period_table (ensure_reference_data example_db) = [1, 2, 3, 4, 5, 6]"
    by (simp_all add: ensure_reference_data_def example_db_def get_or_create_def)
  show ?thesis
    using crossover_result [of example_db ?b] example_facts(1) l p ps
    by (simp add: r t get_or_create_def) (simp add: learner_def)
qed

end
